theory Spec2Isabelle
  imports Main "HOL-Library.Char_ord" "HOL-Library.List_Lexorder"
begin

section \<open>Exceptions, observable calls and programs\<close>

text \<open>
  The namespace returned by the argument parser: the selected sub-command and the three
  verbosity flags.  Command-specific options live in the record's extension.
\<close>

record parsed_args =
  command :: "string option"
  verbose :: bool
  very_verbose :: bool
  silent :: bool

text \<open>
  Every exception the modelled code can raise.  \<open>CircularDependencyError\<close> is raised by
  the toposort package and carries the unresolved part of the graph; \<open>Failure\<close> stands for
  any other exception raised by a feature hook or an external collaborator.
\<close>

datatype exc =
    ValueError string
  | CircularDependencyError "(string \<times> string list) list"
  | KeyError string
  | DuplicateNameError string
  | RestartWithArgs parsed_args
  | SystemExit int
  | Failure string

datatype kind = Features | Phases | Commands | Actions | Binaries | Services

text \<open>The calls that are recorded, in the order in which they happen.\<close>

datatype call =
    BeforeLoad string
  | Configure string
  | AfterLoad string
  | Registered kind string
  | PrintHelp

text \<open>
  A program runs on a state and either returns a value (\<open>Inr\<close>) or raises (\<open>Inl\<close>); in both
  cases the state reached so far is kept.
\<close>

type_synonym ('a, 's) prog = "'s \<Rightarrow> (exc + 'a) \<times> 's"

definition returns :: "'a \<Rightarrow> ('a, 's) prog" where
  "returns a s = (Inr a, s)"

definition raise :: "exc \<Rightarrow> ('a, 's) prog" where
  "raise e s = (Inl e, s)"

definition and_then :: "('a, 's) prog \<Rightarrow> ('a \<Rightarrow> ('b, 's) prog) \<Rightarrow> ('b, 's) prog" where
  "and_then m k s = (case m s of (Inl e, s') \<Rightarrow> (Inl e, s') | (Inr a, s') \<Rightarrow> k a s')"

text \<open>\<^verbatim>\<open>for x in xs: body(x)\<close>; a raising body ends the loop.\<close>

fun for_each :: "('a \<Rightarrow> (unit, 's) prog) \<Rightarrow> 'a list \<Rightarrow> (unit, 's) prog" where
  "for_each body [] s = (Inr (), s)"
| "for_each body (x # xs) s =
     (case body x s of (Inl e, s') \<Rightarrow> (Inl e, s') | (Inr _, s') \<Rightarrow> for_each body xs s')"

section \<open>Data model\<close>

text \<open>
  \<open>event_bindings\<close> of an action is either one string or an iterable whose elements are
  strings or iterables of strings (unpacked as \<open>event_name, method_name\<close>).
\<close>

datatype event_binding = EventName string | EventTuple "string list"

datatype event_bindings = Single string | Several "event_binding list"

text \<open>
  Properties that read the configuration (\<open>disabled\<close>, the contributed objects) are functions
  of the world \<open>'w\<close>: the configuration data and whatever else the hooks of the features
  change.
\<close>

record 'w action =
  a_name :: string
  a_order :: int
  a_disabled :: "'w \<Rightarrow> bool"
  a_event_bindings :: event_bindings

record 'w feature =
  f_name :: string
  f_dependencies :: "string list"
  f_disabled :: "'w \<Rightarrow> bool"
  f_phases :: "'w \<Rightarrow> string list"
  f_commands :: "'w \<Rightarrow> string list"
  f_actions :: "'w \<Rightarrow> 'w action list"
  f_binaries :: "'w \<Rightarrow> string list"
  f_services :: "'w \<Rightarrow> string list"
  f_before_load :: "'w \<Rightarrow> exc + 'w"
  f_configure :: "'w \<Rightarrow> exc + 'w"
  f_after_load :: "'w \<Rightarrow> exc + 'w"

text \<open>
  A runner made by \<open>action_event_binding_runner_factory\<close>: the action, the event name, the
  method name (\<open>None\<close> when the factory is called without one) and the \<open>fail_fast\<close> policy.
\<close>

record 'w runner =
  r_action :: "'w action"
  r_event_name :: string
  r_method_name :: "string option"
  r_fail_fast :: bool

text \<open>
  The process state: the world seen by hooks, the recorded calls, the six registries (each
  the list returned by its \<open>all()\<close>), the subscriptions of the event bus in the order of the
  \<open>bus.on\<close> calls, the logger level, \<open>config.args\<close>, \<open>config.unknown_args\<close> and
  \<open>context.exceptions\<close>.
\<close>

record 'w state =
  world :: 'w
  calls :: "call list"
  features :: "'w feature list"
  phases :: "string list"
  commands :: "string list"
  actions :: "'w action list"
  binaries :: "string list"
  services :: "string list"
  bus :: "(string \<times> 'w runner) list"
  log_level :: string
  config_args :: "parsed_args option"
  config_unknown_args :: "string list"
  exceptions :: "exc list"

section \<open>Dictionaries\<close>

text \<open>
  A Python dict is an association list with distinct keys in insertion order;
  \<open>d[k] = v\<close> keeps the position of an existing key and appends a new one.
\<close>

fun dict_set :: "'k \<Rightarrow> 'v \<Rightarrow> ('k \<times> 'v) list \<Rightarrow> ('k \<times> 'v) list" where
  "dict_set k v [] = [(k, v)]"
| "dict_set k v ((k', v') # d) =
     (if k' = k then (k, v) # d else (k', v') # dict_set k v d)"

definition dict_getitem :: "(string \<times> 'v) list \<Rightarrow> string \<Rightarrow> exc + 'v" where
  "dict_getitem d k = (case map_of d k of None \<Rightarrow> Inl (KeyError k) | Some v \<Rightarrow> Inr v)"

text \<open>A Python set of strings is a duplicate-free list; \<open>s.add(x)\<close> is \<open>List.insert\<close>.\<close>

section \<open>Feature graph resolution\<close>

definition endswith :: "string \<Rightarrow> string \<Rightarrow> bool" where
  "endswith s suffix =
     (length suffix \<le> length s \<and> drop (length s - length suffix) s = suffix)"

text \<open>
  The inner loop of \<open>_prepare_dependencies_data\<close> over \<open>feat.dependencies\<close>; the pair is
  \<open>(feat_required_dependencies, dependencies)\<close>.
\<close>

fun dependency_items :: "string list \<Rightarrow> string list \<times> string list \<Rightarrow> string list \<times> string list" where
  "dependency_items [] acc = acc"
| "dependency_items (dependency_item # rest) (required, dependencies) =
     (if \<not> endswith dependency_item ''[optional]''
      then dependency_items rest
             (required @ [dependency_item], List.insert dependency_item dependencies)
      else dependency_items rest
             (required,
              List.insert
                (take (length dependency_item - length ''[optional]'') dependency_item)
                dependencies))"

fun prepare_loop ::
  "(string \<times> 'w feature) list \<Rightarrow>
   (string \<times> string list) list \<times> (string \<times> string list) list \<Rightarrow>
   (string \<times> string list) list \<times> (string \<times> string list) list" where
  "prepare_loop [] acc = acc"
| "prepare_loop ((name, feat) # items) (required_dependencies, toposort_data) =
     (case dependency_items (f_dependencies feat) ([], []) of
        (feat_required_dependencies, dependencies) \<Rightarrow>
          prepare_loop items
            (dict_set name feat_required_dependencies required_dependencies,
             dict_set name dependencies toposort_data))"

definition prepare_dependencies_data ::
  "(string \<times> 'w feature) list \<Rightarrow>
   (string \<times> string list) list \<times> (string \<times> string list) list" where
  "prepare_dependencies_data entrypoint_features = prepare_loop entrypoint_features ([], [])"

definition missing_message :: "string \<Rightarrow> string \<Rightarrow> string" where
  "missing_message name required_dependency =
     ''A required dependency is missing for '' @ name @ '' feature ('' @ required_dependency @ '')''"

fun check_feature :: "string list \<Rightarrow> string \<Rightarrow> string list \<Rightarrow> exc + unit" where
  "check_feature keys name [] = Inr ()"
| "check_feature keys name (required_dependency # rest) =
     (if required_dependency \<notin> set keys
      then Inl (ValueError (missing_message name required_dependency))
      else check_feature keys name rest)"

fun check_loop :: "string list \<Rightarrow> (string \<times> string list) list \<Rightarrow> exc + unit" where
  "check_loop keys [] = Inr ()"
| "check_loop keys ((name, feat_required_dependencies) # rest) =
     (case check_feature keys name feat_required_dependencies of
        Inl e \<Rightarrow> Inl e
      | Inr _ \<Rightarrow> check_loop keys rest)"

definition check_missing_dependencies ::
  "(string \<times> 'w feature) list \<Rightarrow> (string \<times> string list) list \<Rightarrow> exc + unit" where
  "check_missing_dependencies entrypoint_features required_dependencies =
     check_loop (map fst entrypoint_features) required_dependencies"


subsection \<open>The toposort package\<close>

text \<open>
  \<open>toposort\<close> and \<open>toposort_flatten\<close> belong to the third-party toposort package, which
  \<open>register_features\<close> imports; they are transcribed from the package.  The graph maps each
  item to the set of items it depends on.  Each round yields the items without remaining
  dependencies and removes them from the graph; what remains when no such item exists is a
  cycle.
\<close>

definition ready :: "(string \<times> string list) list \<Rightarrow> string list" where
  "ready data = map fst (filter (\<lambda>(item, dep). length dep = 0) data)"

definition without :: "string list \<Rightarrow> (string \<times> string list) list \<Rightarrow> (string \<times> string list) list" where
  "without ordered data =
     map (\<lambda>(item, dep). (item, filter (\<lambda>d. d \<notin> set ordered) dep))
       (filter (\<lambda>(item, dep). item \<notin> set ordered) data)"

lemma without_shorter: "ready data \<noteq> [] \<Longrightarrow> length (without (ready data) data) < length data"
proof -
  assume "ready data \<noteq> []"
  then obtain item where "item \<in> set (ready data)"
    by (cases "ready data") auto
  then obtain dep where "(item, dep) \<in> set data"
    by (auto simp: ready_def)
  with \<open>item \<in> set (ready data)\<close>
  have "\<exists>p \<in> set data. \<not> (case p of (i, d) \<Rightarrow> i \<notin> set (ready data))"
    by force
  then have "length (filter (\<lambda>(i, d). i \<notin> set (ready data)) data) < length data"
    by (meson length_filter_less)
  then show ?thesis
    by (simp add: without_def)
qed

function toposort_loop :: "(string \<times> string list) list \<Rightarrow> exc + string list list" where
  "toposort_loop data =
     (if ready data = []
      then (if length data \<noteq> 0 then Inl (CircularDependencyError data) else Inr [])
      else (case toposort_loop (without (ready data) data) of
              Inl e \<Rightarrow> Inl e
            | Inr levels \<Rightarrow> Inr (ready data # levels)))"
  by pat_completeness auto
termination
  by (relation "measure length") (auto simp: without_shorter)

declare toposort_loop.simps [simp del]

definition toposort :: "(string \<times> string list) list \<Rightarrow> exc + string list list" where
  "toposort data =
     (if length data = 0 then Inr []
      else
        let data1 = map (\<lambda>(k, v). (k, removeAll k v)) data;
            extra_items_in_deps =
              filter (\<lambda>item. item \<notin> set (map fst data1)) (remdups (concat (map snd data1)));
            data2 = data1 @ map (\<lambda>item. (item, [])) extra_items_in_deps
        in toposort_loop data2)"

text \<open>\<open>toposort_flatten(data, sort=True)\<close>: every level is sorted before it is appended.\<close>

definition toposort_flatten :: "(string \<times> string list) list \<Rightarrow> exc + string list" where
  "toposort_flatten data =
     (case toposort data of
        Inl e \<Rightarrow> Inl e
      | Inr levels \<Rightarrow> Inr (concat (map sort levels)))"

subsection \<open>Registries\<close>

text \<open>
  A registry is one of the process-wide tables of the state, reached through its accessor
  and its update.
\<close>

record ('w, 'a) registry =
  reg_kind :: kind
  reg_name :: "'a \<Rightarrow> string"
  reg_all :: "'w state \<Rightarrow> 'a list"
  reg_put :: "'a list \<Rightarrow> 'w state \<Rightarrow> 'w state"

text \<open>
  Modelled from the spec: the class \<open>Registry\<close> (module \<open>ddb.registry\<close>) is not among the
  sources.  The spec says that a registry maps names to registered objects and enforces
  name uniqueness at registration time, failing with \<open>DuplicateNameError\<close> otherwise;
  \<open>all()\<close> lists the objects in registration order.
\<close>

definition registry_register :: "('w, 'a) registry \<Rightarrow> 'a \<Rightarrow> (unit, 'w state) prog" where
  "registry_register registry obj s =
     (if reg_name registry obj \<in> set (map (reg_name registry) (reg_all registry s))
      then (Inl (DuplicateNameError (reg_name registry obj)), s)
      else (Inr (),
            (reg_put registry (reg_all registry s @ [obj]) s)
              \<lparr>calls := calls s @ [Registered (reg_kind registry) (reg_name registry obj)]\<rparr>))"

definition features_registry :: "('w, 'w feature) registry" where
  "features_registry =
     \<lparr>reg_kind = Features, reg_name = f_name, reg_all = features,
      reg_put = (\<lambda>v s. s\<lparr>features := v\<rparr>)\<rparr>"

definition phases_registry :: "('w, string) registry" where
  "phases_registry =
     \<lparr>reg_kind = Phases, reg_name = (\<lambda>n. n), reg_all = phases,
      reg_put = (\<lambda>v s. s\<lparr>phases := v\<rparr>)\<rparr>"

definition commands_registry :: "('w, string) registry" where
  "commands_registry =
     \<lparr>reg_kind = Commands, reg_name = (\<lambda>n. n), reg_all = commands,
      reg_put = (\<lambda>v s. s\<lparr>commands := v\<rparr>)\<rparr>"

definition actions_registry :: "('w, 'w action) registry" where
  "actions_registry =
     \<lparr>reg_kind = Actions, reg_name = a_name, reg_all = actions,
      reg_put = (\<lambda>v s. s\<lparr>actions := v\<rparr>)\<rparr>"

definition binaries_registry :: "('w, string) registry" where
  "binaries_registry =
     \<lparr>reg_kind = Binaries, reg_name = (\<lambda>n. n), reg_all = binaries,
      reg_put = (\<lambda>v s. s\<lparr>binaries := v\<rparr>)\<rparr>"

definition services_registry :: "('w, string) registry" where
  "services_registry =
     \<lparr>reg_kind = Services, reg_name = (\<lambda>n. n), reg_all = services,
      reg_put = (\<lambda>v s. s\<lparr>services := v\<rparr>)\<rparr>"

subsection \<open>External collaborators\<close>

text \<open>
  What \<open>__main__\<close> calls but does not define: loading the configuration, registering the
  caches, the built-in features and those discovered through the \<open>ddb_features\<close> entry
  points, the \<open>dependencies\<close> entry of the configuration data, the argument parser (given
  the names of the registered commands) and \<open>execute_command\<close>.
\<close>

record 'w externals =
  config_load :: "(unit, 'w state) prog"
  register_default_caches :: "(unit, 'w state) prog"
  get_default_features :: "'w feature list"
  iter_entry_points :: "'w feature list"
  config_dependencies :: "'w \<Rightarrow> (string \<times> string list) list option"
  parse_known_args :: "string list \<Rightarrow> string list option \<Rightarrow> exc + parsed_args \<times> string list"
  execute_command :: "string \<Rightarrow> (unit, 'w state) prog"

subsection \<open>register_features\<close>

definition entrypoint_features_of :: "'w externals \<Rightarrow> 'w feature list \<Rightarrow> (string \<times> 'w feature) list" where
  "entrypoint_features_of ext default_features =
     fold (\<lambda>feature d. dict_set (f_name feature) feature d) (iter_entry_points ext)
       (fold (\<lambda>f d. dict_set (f_name f) f d) default_features [])"

text \<open>The inner loop \<open>toposort_data[feat].add(feat_dependency)\<close> of the override merge.\<close>

fun add_dependencies ::
  "string \<Rightarrow> string list \<Rightarrow> (string \<times> string list) list \<Rightarrow> exc + (string \<times> string list) list" where
  "add_dependencies feat [] toposort_data = Inr toposort_data"
| "add_dependencies feat (feat_dependency # rest) toposort_data =
     (case dict_getitem toposort_data feat of
        Inl e \<Rightarrow> Inl e
      | Inr deps \<Rightarrow>
          add_dependencies feat rest
            (dict_set feat (List.insert feat_dependency deps) toposort_data))"

text \<open>The loop over \<open>dependencies.items()\<close> of \<open>register_features\<close>.\<close>

fun merge_dependencies ::
  "(string \<times> string list) list \<Rightarrow> (string \<times> string list) list \<Rightarrow>
   exc + (string \<times> string list) list" where
  "merge_dependencies [] toposort_data = Inr toposort_data"
| "merge_dependencies ((feat, feat_dependencies) # rest) toposort_data =
     (case add_dependencies feat feat_dependencies
             (if feat \<notin> set (map fst toposort_data)
              then dict_set feat [] toposort_data else toposort_data) of
        Inl e \<Rightarrow> Inl e
      | Inr toposort_data' \<Rightarrow> merge_dependencies rest toposort_data')"

text \<open>\<open>if dependencies:\<close> holds for a dict that is neither \<open>None\<close> nor empty.\<close>

definition merge_override ::
  "(string \<times> string list) list option \<Rightarrow> (string \<times> string list) list \<Rightarrow>
   exc + (string \<times> string list) list" where
  "merge_override dependencies toposort_data =
     (case dependencies of
        None \<Rightarrow> Inr toposort_data
      | Some d \<Rightarrow> if d = [] then Inr toposort_data else merge_dependencies d toposort_data)"

definition register_sorted ::
  "(string \<times> 'w feature) list \<Rightarrow> string list \<Rightarrow> (unit, 'w state) prog" where
  "register_sorted entrypoint_features sorted_feature_names =
     for_each
       (\<lambda>feature_name s.
          case map_of entrypoint_features feature_name of
            None \<Rightarrow> (Inr (), s)
          | Some feature \<Rightarrow> registry_register features_registry feature s)
       sorted_feature_names"

definition register_features :: "'w externals \<Rightarrow> 'w feature list \<Rightarrow> (unit, 'w state) prog" where
  "register_features ext default_features s =
     (let entrypoint_features = entrypoint_features_of ext default_features in
      case prepare_dependencies_data entrypoint_features of
        (required_dependencies, toposort_data) \<Rightarrow>
          (case check_missing_dependencies entrypoint_features required_dependencies of
             Inl e \<Rightarrow> (Inl e, s)
           | Inr _ \<Rightarrow>
               (case merge_override (config_dependencies ext (world s)) toposort_data of
                  Inl e \<Rightarrow> (Inl e, s)
                | Inr merged \<Rightarrow>
                    (case toposort_flatten merged of
                       Inl e \<Rightarrow> (Inl e, s)
                     | Inr sorted_feature_names \<Rightarrow>
                         register_sorted entrypoint_features sorted_feature_names s))))"


section \<open>Feature lifecycle\<close>

text \<open>Calling a hook of a feature records the call and lets the hook change the world.\<close>

definition before_load :: "'w feature \<Rightarrow> (unit, 'w state) prog" where
  "before_load feature s =
     (let s1 = s\<lparr>calls := calls s @ [BeforeLoad (f_name feature)]\<rparr> in
      case f_before_load feature (world s1) of
        Inl e \<Rightarrow> (Inl e, s1)
      | Inr w \<Rightarrow> (Inr (), s1\<lparr>world := w\<rparr>))"

definition configure :: "'w feature \<Rightarrow> (unit, 'w state) prog" where
  "configure feature s =
     (let s1 = s\<lparr>calls := calls s @ [Configure (f_name feature)]\<rparr> in
      case f_configure feature (world s1) of
        Inl e \<Rightarrow> (Inl e, s1)
      | Inr w \<Rightarrow> (Inr (), s1\<lparr>world := w\<rparr>))"

definition after_load :: "'w feature \<Rightarrow> (unit, 'w state) prog" where
  "after_load feature s =
     (let s1 = s\<lparr>calls := calls s @ [AfterLoad (f_name feature)]\<rparr> in
      case f_after_load feature (world s1) of
        Inl e \<Rightarrow> (Inl e, s1)
      | Inr w \<Rightarrow> (Inr (), s1\<lparr>world := w\<rparr>))"

definition register_objects ::
  "'w feature list \<Rightarrow> ('w feature \<Rightarrow> 'w \<Rightarrow> 'a list) \<Rightarrow> ('w, 'a) registry \<Rightarrow> (unit, 'w state) prog" where
  "register_objects features_list objects_getter registry s =
     (let all_objects = concat (map (\<lambda>feature. objects_getter feature (world s)) features_list)
      in for_each (registry_register registry) all_objects s)"

definition load_registered_features :: "('w feature list, 'w state) prog" where
  "load_registered_features s =
     (let all_features = features s in
      and_then (for_each before_load all_features) (\<lambda>_.
      and_then (for_each configure all_features) (\<lambda>_ s2.
        let enabled_features = filter (\<lambda>f. \<not> f_disabled f (world s2)) all_features in
        and_then (register_objects enabled_features f_phases phases_registry) (\<lambda>_.
        and_then (register_objects enabled_features f_commands commands_registry) (\<lambda>_.
        and_then (register_objects enabled_features
                    (\<lambda>f w. filter (\<lambda>a. \<not> a_disabled a w) (f_actions f w)) actions_registry) (\<lambda>_.
        and_then (register_objects enabled_features f_binaries binaries_registry) (\<lambda>_.
        and_then (register_objects enabled_features f_services services_registry) (\<lambda>_.
        and_then (for_each after_load enabled_features) (\<lambda>_.
        returns enabled_features)))))) s2)) s)"

section \<open>Binding actions to the event bus\<close>

text \<open>
  Modelled from the spec: the event bus (module \<open>ddb.event\<close>) is not among the sources.
  The spec says that \<open>on(event_name, handler)\<close> registers a handler and that
  \<open>emit(event_name, ...)\<close> invokes every handler bound to exactly that event name, in
  registration order.  \<open>bus_handlers\<close> is the sequence \<open>emit\<close> goes through.
\<close>

definition bus_on :: "string \<Rightarrow> 'w runner \<Rightarrow> (unit, 'w state) prog" where
  "bus_on event_name handler s = (Inr (), s\<lparr>bus := bus s @ [(event_name, handler)]\<rparr>)"

definition bus_handlers :: "string \<Rightarrow> (string \<times> 'h) list \<Rightarrow> 'h list" where
  "bus_handlers event_name subscriptions =
     map snd (filter (\<lambda>(n, h). n = event_name) subscriptions)"

text \<open>
  Modelled from the spec: \<open>action_event_binding_runner_factory\<close> (module
  \<open>ddb.action.runnerfactory\<close>) is not among the sources.  The spec says that it constructs a
  runner bound to the action, the event name, the method name (the main entry point by
  default) and the fail-fast policy.
\<close>

definition action_event_binding_runner_factory ::
  "'w action \<Rightarrow> string \<Rightarrow> string option \<Rightarrow> bool \<Rightarrow> 'w runner" where
  "action_event_binding_runner_factory action event_name method_name fail_fast =
     \<lparr>r_action = action, r_event_name = event_name, r_method_name = method_name,
      r_fail_fast = fail_fast\<rparr>"

text \<open>
  The body of the loop over \<open>action.event_bindings\<close>.  Unpacking
  \<open>event_name, method_name = event_binding\<close> raises \<open>ValueError\<close> unless the binding has
  exactly two elements.
\<close>

fun bind_event_binding :: "bool \<Rightarrow> 'w action \<Rightarrow> event_binding \<Rightarrow> (unit, 'w state) prog" where
  "bind_event_binding fail_fast action (EventName event_name) =
     bus_on event_name (action_event_binding_runner_factory action event_name None fail_fast)"
| "bind_event_binding fail_fast action (EventTuple [event_name, method_name]) =
     bus_on event_name
       (action_event_binding_runner_factory action event_name (Some method_name) fail_fast)"
| "bind_event_binding fail_fast action (EventTuple []) =
     raise (ValueError ''not enough values to unpack (expected 2, got 0)'')"
| "bind_event_binding fail_fast action (EventTuple [x]) =
     raise (ValueError ''not enough values to unpack (expected 2, got 1)'')"
| "bind_event_binding fail_fast action (EventTuple (x # y # z # rest)) =
     raise (ValueError ''too many values to unpack (expected 2)'')"

definition bind_action :: "bool \<Rightarrow> 'w action \<Rightarrow> (unit, 'w state) prog" where
  "bind_action fail_fast action =
     (case a_event_bindings action of
        Single event_name \<Rightarrow>
          bus_on event_name
            (action_event_binding_runner_factory action event_name None fail_fast)
      | Several event_bindings \<Rightarrow>
          for_each (bind_event_binding fail_fast action) event_bindings)"

text \<open>\<open>sorted(..., key=...)\<close> is a stable sort, as is \<open>sort_key\<close>.\<close>

definition register_actions_in_event_bus :: "bool \<Rightarrow> (unit, 'w state) prog" where
  "register_actions_in_event_bus fail_fast s =
     (let sorted_actions = sort_key a_order (actions s)
      in for_each (bind_action fail_fast) sorted_actions s)"

section \<open>Command line, main and the console script\<close>

definition configure_context_logger :: "string \<Rightarrow> 'w state \<Rightarrow> 'w state" where
  "configure_context_logger level s = s\<lparr>log_level := level\<rparr>"

definition print_help :: "(unit, 'w state) prog" where
  "print_help s = (Inr (), s\<lparr>calls := calls s @ [PrintHelp]\<rparr>)"

text \<open>
  \<open>commands.get(name)\<close>: the registered command of that name.  The parser only accepts the
  names of registered commands; a missing name is a \<open>KeyError\<close>.
\<close>

definition commands_get :: "string \<Rightarrow> (string, 'w state) prog" where
  "commands_get name s =
     (if name \<in> set (commands s) then (Inr name, s) else (Inl (KeyError name), s))"

text \<open>The log level chosen from the verbosity flags.\<close>

definition selected_log_level :: "parsed_args \<Rightarrow> string" where
  "selected_log_level parsed =
     (if very_verbose parsed then ''DEBUG''
      else if verbose parsed then ''VERBOSE''
      else if silent parsed then ''CRITICAL''
      else ''INFO'')"

definition handle_command_line :: "'w externals \<Rightarrow> string list option \<Rightarrow> (unit, 'w state) prog" where
  "handle_command_line ext args s =
     (case parse_known_args ext (commands s) args of
        Inl e \<Rightarrow> (Inl e, s)
      | Inr (parsed, unknown_args) \<Rightarrow>
          (let s1 = configure_context_logger (selected_log_level parsed) s
           in if command parsed \<noteq> None \<and> command parsed \<noteq> Some []
              then
                (case commands_get (the (command parsed)) s1 of
                   (Inl e, s') \<Rightarrow> (Inl e, s')
                 | (Inr cmd, s') \<Rightarrow>
                     (case execute_command ext cmd
                             (s'\<lparr>config_args := Some parsed,
                                 config_unknown_args := unknown_args\<rparr>) of
                        (Inl (RestartWithArgs restart_args), s3) \<Rightarrow>
                          execute_command ext cmd (s3\<lparr>config_args := Some restart_args\<rparr>)
                      | r \<Rightarrow> r))
              else print_help s1))"

definition main :: "'w externals \<Rightarrow> string list option \<Rightarrow> (exc list, 'w state) prog" where
  "main ext args =
     and_then (config_load ext) (\<lambda>_.
     and_then (register_default_caches ext) (\<lambda>_.
     and_then (register_features ext (get_default_features ext)) (\<lambda>_.
     and_then load_registered_features (\<lambda>_.
     and_then (register_actions_in_event_bus False) (\<lambda>_.
     and_then (handle_command_line ext args) (\<lambda>_ s.
     (Inr (exceptions s), s)))))))"

text \<open>\<open>sys.exit(1)\<close> raises \<open>SystemExit(1)\<close>; a non-empty list is true.\<close>

definition console_script :: "'w externals \<Rightarrow> (unit, 'w state) prog" where
  "console_script ext =
     and_then (main ext None) (\<lambda>exceptions.
       if exceptions \<noteq> [] then raise (SystemExit 1) else returns ())"

text \<open>
  The exit status of the interpreter: zero when the script returns, the code of a
  \<open>SystemExit\<close>, and one for any other uncaught exception.
\<close>

fun exit_status :: "exc + unit \<Rightarrow> int" where
  "exit_status (Inr _) = 0"
| "exit_status (Inl (SystemExit code)) = code"
| "exit_status (Inl _) = 1"

section \<open>Notions used in the statements\<close>

text \<open>The required dependencies of a feature: those without the \<open>[optional]\<close> suffix.\<close>

definition required_of :: "'w feature \<Rightarrow> string list" where
  "required_of feat = filter (\<lambda>d. \<not> endswith d ''[optional]'') (f_dependencies feat)"


text \<open>
  The subscriptions that binding the actions \<open>as\<close>, in this order and without sorting, adds
  to the bus.
\<close>

definition bound_by :: "bool \<Rightarrow> 'w action list \<Rightarrow> 'w state \<Rightarrow> (string \<times> 'w runner) list" where
  "bound_by fail_fast as s =
     drop (length (bus s)) (bus (snd (for_each (bind_action fail_fast) as s)))"

text \<open>A subscription with the \<open>event_bindings\<close> attribute of its action blanked.\<close>

definition forget_bindings :: "string \<times> 'w runner \<Rightarrow> string \<times> 'w runner" where
  "forget_bindings p =
     (fst p, (snd p)\<lparr>r_action := (r_action (snd p))\<lparr>a_event_bindings := Single []\<rparr>\<rparr>)"

text \<open>
  Pure readings of the binding loops, used in the proofs: the outcome of a loop whose body
  has outcome \<open>res x\<close> and appends \<open>add x\<close>, and the outcome and the subscriptions of one
  binding and of one action.
\<close>

fun appended :: "('a \<Rightarrow> exc + unit) \<Rightarrow> ('a \<Rightarrow> 'b list) \<Rightarrow> 'a list \<Rightarrow> (exc + unit) \<times> 'b list" where
  "appended res add [] = (Inr (), [])"
| "appended res add (x # xs) =
     (case res x of
        Inl e \<Rightarrow> (Inl e, add x)
      | Inr _ \<Rightarrow> (fst (appended res add xs), add x @ snd (appended res add xs)))"

fun binding_result :: "event_binding \<Rightarrow> exc + unit" where
  "binding_result (EventName event_name) = Inr ()"
| "binding_result (EventTuple [event_name, method_name]) = Inr ()"
| "binding_result (EventTuple []) =
     Inl (ValueError ''not enough values to unpack (expected 2, got 0)'')"
| "binding_result (EventTuple [x]) =
     Inl (ValueError ''not enough values to unpack (expected 2, got 1)'')"
| "binding_result (EventTuple (x # y # z # rest)) =
     Inl (ValueError ''too many values to unpack (expected 2)'')"

fun binding_added :: "bool \<Rightarrow> 'w action \<Rightarrow> event_binding \<Rightarrow> (string \<times> 'w runner) list" where
  "binding_added fail_fast action (EventName event_name) =
     [(event_name, action_event_binding_runner_factory action event_name None fail_fast)]"
| "binding_added fail_fast action (EventTuple [event_name, method_name]) =
     [(event_name,
       action_event_binding_runner_factory action event_name (Some method_name) fail_fast)]"
| "binding_added fail_fast action (EventTuple _) = []"

definition action_result :: "'w action \<Rightarrow> exc + unit" where
  "action_result action =
     (case a_event_bindings action of
        Single event_name \<Rightarrow> Inr ()
      | Several event_bindings \<Rightarrow>
          fst (appended binding_result (\<lambda>b. [b]) event_bindings))"

definition action_added :: "bool \<Rightarrow> 'w action \<Rightarrow> (string \<times> 'w runner) list" where
  "action_added fail_fast action =
     (case a_event_bindings action of
        Single event_name \<Rightarrow>
          [(event_name, action_event_binding_runner_factory action event_name None fail_fast)]
      | Several event_bindings \<Rightarrow>
          snd (appended binding_result (binding_added fail_fast action) event_bindings))"

text \<open>
  The step of \<open>load_registered_features\<close> a recorded call belongs to: the two hooks that run
  on every feature, the five registrations in the order of the code, and the final hook.
\<close>

fun stage :: "call \<Rightarrow> nat" where
  "stage (BeforeLoad n) = 0"
| "stage (Configure n) = 1"
| "stage (Registered Phases n) = 2"
| "stage (Registered Commands n) = 3"
| "stage (Registered Actions n) = 4"
| "stage (Registered Binaries n) = 5"
| "stage (Registered Services n) = 6"
| "stage (AfterLoad n) = 7"
| "stage (Registered Features n) = 8"
| "stage PrintHelp = 8"

text \<open>
  The world once \<open>before_load\<close> and then \<open>configure\<close> have run on every registered
  feature: the world in which \<open>disabled\<close> is read.
\<close>

definition configured_world :: "'w state \<Rightarrow> 'w" where
  "configured_world s =
     world (snd (for_each configure (features s) (snd (for_each before_load (features s) s))))"

text \<open>
  What \<open>load_registered_features\<close> does once both hooks have run on every feature, as a
  program of its own, and the notion used to reason about sequences of programs: every run
  of the program relates the state it starts from to the state it ends in, given whether it
  returned.
\<close>

definition register_enabled :: "'w feature list \<Rightarrow> ('w feature list, 'w state) prog" where
  "register_enabled enabled_features =
     and_then (register_objects enabled_features f_phases phases_registry) (\<lambda>_.
     and_then (register_objects enabled_features f_commands commands_registry) (\<lambda>_.
     and_then (register_objects enabled_features
                 (\<lambda>f w. filter (\<lambda>a. \<not> a_disabled a w) (f_actions f w)) actions_registry) (\<lambda>_.
     and_then (register_objects enabled_features f_binaries binaries_registry) (\<lambda>_.
     and_then (register_objects enabled_features f_services services_registry) (\<lambda>_.
     and_then (for_each after_load enabled_features) (\<lambda>_.
     returns enabled_features))))))"

definition load_tail :: "'w feature list \<Rightarrow> ('w feature list, 'w state) prog" where
  "load_tail all_features s2 =
     register_enabled (filter (\<lambda>f. \<not> f_disabled f (world s2)) all_features) s2"

definition steps :: "(bool \<Rightarrow> 's \<Rightarrow> 's \<Rightarrow> bool) \<Rightarrow> ('a, 's) prog \<Rightarrow> bool" where
  "steps R m = (\<forall>s r s'. m s = (r, s') \<longrightarrow> R (\<not> isl r) s s')"

text \<open>The calls added are in stage order, with stages between two bounds.\<close>

definition staged :: "nat \<Rightarrow> nat \<Rightarrow> bool \<Rightarrow> 'w state \<Rightarrow> 'w state \<Rightarrow> bool" where
  "staged lo hi b s s' =
     (\<exists>new. calls s' = calls s @ new \<and> sorted (map stage new) \<and>
            (\<forall>c \<in> set new. lo \<le> stage c \<and> stage c \<le> hi))"

text \<open>The laws of a registry's accessor and update.\<close>

definition well_behaved :: "('w, 'a) registry \<Rightarrow> bool" where
  "well_behaved reg =
     ((\<forall>v s. calls (reg_put reg v s) = calls s) \<and>
      (\<forall>v s. world (reg_put reg v s) = world s) \<and>
      (\<forall>v s. reg_all reg (reg_put reg v s) = v) \<and>
      (\<forall>c s. reg_all reg (s\<lparr>calls := c\<rparr>) = reg_all reg s) \<and>
      (\<forall>v u s. reg_put reg v (reg_put reg u s) = reg_put reg v s) \<and>
      (\<forall>v c s. reg_put reg v (s\<lparr>calls := c\<rparr>) = (reg_put reg v s)\<lparr>calls := c\<rparr>) \<and>
      (\<forall>s. reg_put reg (reg_all reg s) s = s))"

text \<open>
  Relations between the start and the end of a run: the world and the action registry are
  untouched; the action registry is untouched; the action registry has received a prefix of
  the objects \<open>objs\<close> read in the starting world.
\<close>

definition quiet :: "bool \<Rightarrow> 'w state \<Rightarrow> 'w state \<Rightarrow> bool" where
  "quiet b s s' = (world s' = world s \<and> actions s' = actions s)"

definition same_actions :: "bool \<Rightarrow> 'w state \<Rightarrow> 'w state \<Rightarrow> bool" where
  "same_actions b s s' = (actions s' = actions s)"

definition enrolled :: "('w \<Rightarrow> 'w action list) \<Rightarrow> bool \<Rightarrow> 'w state \<Rightarrow> 'w state \<Rightarrow> bool" where
  "enrolled objs b s s' = (\<exists>k. actions s' = actions s @ take k (objs (world s)))"

definition enrolled_quietly ::
  "('w \<Rightarrow> 'w action list) \<Rightarrow> bool \<Rightarrow> 'w state \<Rightarrow> 'w state \<Rightarrow> bool" where
  "enrolled_quietly objs b s s' = (world s' = world s \<and> enrolled objs b s s')"

section \<open>The shell environment backup\<close>

text \<open>
  \<open>encode_environ_backup\<close> and \<open>decode_environ_backup\<close> compose \<open>json.dumps\<close>,
  \<open>str.encode\<close>, \<open>base64.b64encode\<close>, \<open>bytes.decode\<close> and their inverses from the Python
  standard library, transcribed here for a dict from strings to strings.  A Python string is
  a list of code points and a bytes object a list of numbers below 256; a dict is an
  association list, as above.  The decoding errors of the library (\<open>JSONDecodeError\<close>,
  \<open>binascii.Error\<close>, \<open>UnicodeError\<close>) are subclasses of \<open>ValueError\<close>, and \<open>Failure\<close> marks the
  input that the transcription of \<open>json.loads\<close> does not read.
\<close>

type_synonym str = "nat list"

type_synonym bytes = "nat list"

subsection \<open>json.dumps\<close>

definition hex_digit :: "nat \<Rightarrow> nat" where
  "hex_digit n = (if n < 10 then 48 + n else 87 + n)"

definition hex4 :: "nat \<Rightarrow> str" where
  "hex4 n =
     [hex_digit (n div 4096 mod 16), hex_digit (n div 256 mod 16),
      hex_digit (n div 16 mod 16), hex_digit (n mod 16)]"

definition u_escape :: "nat \<Rightarrow> str" where
  "u_escape n = [92, 117] @ hex4 n"

text \<open>
  With \<open>ensure_ascii\<close>, the default: the quote, the backslash and the characters outside
  the range from the space to the tilde are escaped, and a code point above \<open>0xFFFF\<close> is
  written as a surrogate pair.
\<close>

definition escape_char :: "nat \<Rightarrow> str" where
  "escape_char c =
     (if c = 34 then [92, 34]
      else if c = 92 then [92, 92]
      else if c = 10 then [92, 110]
      else if c = 13 then [92, 114]
      else if c = 9 then [92, 116]
      else if c = 8 then [92, 98]
      else if c = 12 then [92, 102]
      else if 32 \<le> c \<and> c \<le> 126 then [c]
      else if c < 65536 then u_escape c
      else u_escape (55296 + (c - 65536) div 1024 mod 1024) @
           u_escape (56320 + (c - 65536) mod 1024))"

definition encode_basestring_ascii :: "str \<Rightarrow> str" where
  "encode_basestring_ascii s = [34] @ concat (map escape_char s) @ [34]"

definition dumps_item :: "str \<times> str \<Rightarrow> str" where
  "dumps_item item =
     encode_basestring_ascii (fst item) @ [58, 32] @ encode_basestring_ascii (snd item)"

fun dumps_items :: "(str \<times> str) list \<Rightarrow> str" where
  "dumps_items [] = []"
| "dumps_items [item] = dumps_item item"
| "dumps_items (item # items) = dumps_item item @ [44, 32] @ dumps_items items"

definition json_dumps :: "(str \<times> str) list \<Rightarrow> str" where
  "json_dumps d = [123] @ dumps_items d @ [125]"

subsection \<open>json.loads\<close>

definition is_whitespace :: "nat \<Rightarrow> bool" where
  "is_whitespace c = (c = 32 \<or> c = 9 \<or> c = 10 \<or> c = 13)"

definition hex_value :: "nat \<Rightarrow> nat option" where
  "hex_value c =
     (if 48 \<le> c \<and> c \<le> 57 then Some (c - 48)
      else if 97 \<le> c \<and> c \<le> 102 then Some (c - 87)
      else if 65 \<le> c \<and> c \<le> 70 then Some (c - 55)
      else None)"

definition decode_hex4 :: "str \<Rightarrow> (nat \<times> str) option" where
  "decode_hex4 cs =
     (case cs of
        a # b # c # d # rest \<Rightarrow>
          (case (hex_value a, hex_value b, hex_value c, hex_value d) of
             (Some x, Some y, Some z, Some w) \<Rightarrow> Some (((x * 16 + y) * 16 + z) * 16 + w, rest)
           | _ \<Rightarrow> None)
      | _ \<Rightarrow> None)"

text \<open>
  The text after the escape letter \<open>u\<close>: four hexadecimal digits, with text left after them;
  a high surrogate that is followed by the escape of a low surrogate is joined with it into
  one code point.
\<close>

definition scan_u :: "str \<Rightarrow> exc + nat \<times> str" where
  "scan_u cs =
     (case (if length cs \<le> 4 then None else decode_hex4 cs) of
        None \<Rightarrow> Inl (ValueError ''JSONDecodeError: Invalid uXXXX escape'')
      | Some (uni, rest) \<Rightarrow>
          if 55296 \<le> uni \<and> uni \<le> 56319 \<and> 6 < length rest \<and>
             rest ! 0 = 92 \<and> rest ! 1 = 117
          then
            (case decode_hex4 (drop 2 rest) of
               None \<Rightarrow> Inl (ValueError ''JSONDecodeError: Invalid uXXXX escape'')
             | Some (uni2, rest2) \<Rightarrow>
                 if 56320 \<le> uni2 \<and> uni2 \<le> 57343
                 then Inr (65536 + (uni - 55296) * 1024 + (uni2 - 56320), rest2)
                 else Inr (uni, rest))
          else Inr (uni, rest))"

definition backslash :: "nat \<Rightarrow> nat option" where
  "backslash e =
     (if e = 34 then Some 34
      else if e = 92 then Some 92
      else if e = 47 then Some 47
      else if e = 98 then Some 8
      else if e = 102 then Some 12
      else if e = 110 then Some 10
      else if e = 114 then Some 13
      else if e = 116 then Some 9
      else None)"

lemma decode_hex4_length: "decode_hex4 cs = Some (n, rest) \<Longrightarrow> length cs = length rest + 4"
  by (auto simp: decode_hex4_def split: list.splits option.splits)

lemma scan_u_shorter:
  assumes "scan_u cs = Inr (c, rest)"
  shows "length rest < length cs"
proof -
  obtain uni rest1 where d1: "decode_hex4 cs = Some (uni, rest1)"
    using assms by (auto simp: scan_u_def split: option.splits if_splits)
  have l1: "length cs = length rest1 + 4"
    using decode_hex4_length[OF d1] .
  show ?thesis
  proof (cases "rest = rest1")
    case True
    then show ?thesis using l1 by simp
  next
    case False
    then obtain uni2 where "decode_hex4 (drop 2 rest1) = Some (uni2, rest)"
      using assms d1 by (auto simp: scan_u_def split: option.splits if_splits)
    from decode_hex4_length[OF this] have "length rest \<le> length rest1" by simp
    then show ?thesis using l1 by simp
  qed
qed

text \<open>
  \<open>scanstring\<close> in strict mode, as the scanner of CPython implements it, from the character
  after the opening quote: the decoded string and the text after the closing quote.
\<close>

function scanstring :: "str \<Rightarrow> exc + str \<times> str" where
  "scanstring [] = Inl (ValueError ''JSONDecodeError: Unterminated string starting at'')"
| "scanstring (c # cs) =
     (if c = 34 then Inr ([], cs)
      else if c = 92 then
        (case cs of
           [] \<Rightarrow> Inl (ValueError ''JSONDecodeError: Unterminated string starting at'')
         | e # es \<Rightarrow>
             if e = 117 then
               (case scan_u es of
                  Inl err \<Rightarrow> Inl err
                | Inr (ch, rest) \<Rightarrow>
                    (case scanstring rest of
                       Inl err \<Rightarrow> Inl err
                     | Inr (s, r) \<Rightarrow> Inr (ch # s, r)))
             else
               (case backslash e of
                  None \<Rightarrow> Inl (ValueError ''JSONDecodeError: Invalid escape'')
                | Some ch \<Rightarrow>
                    (case scanstring es of
                       Inl err \<Rightarrow> Inl err
                     | Inr (s, r) \<Rightarrow> Inr (ch # s, r))))
      else if c < 32 then Inl (ValueError ''JSONDecodeError: Invalid control character at'')
      else
        (case scanstring cs of
           Inl err \<Rightarrow> Inl err
         | Inr (s, r) \<Rightarrow> Inr (c # s, r)))"
  by pat_completeness auto
termination
  by (relation "measure length") (auto dest: scan_u_shorter)

declare scanstring.simps [simp del]

lemma scanstring_shorter: "scanstring cs = Inr (s, r) \<Longrightarrow> length r < length cs"
proof (induction cs arbitrary: s r rule: scanstring.induct)
  case 1
  then show ?case by (simp add: scanstring.simps)
next
  case (2 c cs)
  then show ?case
    by (fastforce simp: scanstring.simps(2)[of c cs]
        split: if_splits list.splits sum.splits option.splits prod.splits
        dest: scan_u_shorter)
qed

lemma dropWhile_shorter: "dropWhile P y = c # z \<Longrightarrow> length z < length y"
  using length_dropWhile_le[of P y] by simp

lemma members_shorter:
  assumes "scanstring after_quote = Inr (key, after_key)"
    and "dropWhile is_whitespace after_key = colon # after_colon"
    and "dropWhile is_whitespace after_colon = v # after_v"
    and "scanstring after_v = Inr (val, after_val)"
    and "dropWhile is_whitespace after_val = d # after_d"
  shows "length (dropWhile is_whitespace after_d) < Suc (length after_quote)"
proof -
  have "length (dropWhile is_whitespace after_d) \<le> length after_d"
    by (rule length_dropWhile_le)
  also have "\<dots> < length after_val" using dropWhile_shorter[OF assms(5)] .
  also have "\<dots> < length after_v" using scanstring_shorter[OF assms(4)] .
  also have "\<dots> < length after_colon" using dropWhile_shorter[OF assms(3)] .
  also have "\<dots> < length after_key" using dropWhile_shorter[OF assms(2)] .
  also have "\<dots> < length after_quote" using scanstring_shorter[OF assms(1)] .
  finally show ?thesis by simp
qed

text \<open>
  The members of an object, from the opening quote of a property name.  A value that is a
  string is read; any other value is not.  A repeated name replaces the earlier value.
\<close>

function parse_members :: "(str \<times> str) list \<Rightarrow> str \<Rightarrow> exc + (str \<times> str) list \<times> str" where
  "parse_members pairs cs =
     (case cs of
        [] \<Rightarrow> Inl (ValueError ''JSONDecodeError: Expecting property name enclosed in double quotes'')
      | q # after_quote \<Rightarrow>
          if q \<noteq> 34
          then Inl (ValueError ''JSONDecodeError: Expecting property name enclosed in double quotes'')
          else
            (case scanstring after_quote of
               Inl err \<Rightarrow> Inl err
             | Inr (key, after_key) \<Rightarrow>
                 (case dropWhile is_whitespace after_key of
                    [] \<Rightarrow> Inl (ValueError ''JSONDecodeError: Expecting colon delimiter'')
                  | colon # after_colon \<Rightarrow>
                      if colon \<noteq> 58 then Inl (ValueError ''JSONDecodeError: Expecting colon delimiter'')
                      else
                        (case dropWhile is_whitespace after_colon of
                           [] \<Rightarrow> Inl (ValueError ''JSONDecodeError: Expecting value'')
                         | v # after_v \<Rightarrow>
                             if v \<noteq> 34
                             then Inl (Failure ''a value that is not a string'')
                             else
                               (case scanstring after_v of
                                  Inl err \<Rightarrow> Inl err
                                | Inr (val, after_val) \<Rightarrow>
                                    (case dropWhile is_whitespace after_val of
                                       [] \<Rightarrow> Inl (ValueError ''JSONDecodeError: Expecting comma delimiter'')
                                     | d # after_d \<Rightarrow>
                                         if d = 125
                                         then Inr (dict_set key val pairs, after_d)
                                         else if d = 44
                                         then parse_members (dict_set key val pairs)
                                                (dropWhile is_whitespace after_d)
                                         else Inl (ValueError
                                                     ''JSONDecodeError: Expecting comma delimiter'')))))))"
  by pat_completeness auto
termination
  apply (relation "measure (\<lambda>(pairs, cs). length cs)")
   apply simp
  apply clarsimp
  apply (rule members_shorter; assumption)
  done

declare parse_members.simps [simp del]

text \<open>
  \<open>json.loads\<close> of a string: whitespace, one value, whitespace.  An object is read; another
  value is not.
\<close>

definition json_loads :: "str \<Rightarrow> exc + (str \<times> str) list" where
  "json_loads s =
     (if take 1 s = [65279]
      then Inl (ValueError ''JSONDecodeError: Unexpected UTF-8 BOM (decode using utf-8-sig)'')
      else
      case dropWhile is_whitespace s of
        [] \<Rightarrow> Inl (ValueError ''JSONDecodeError: Expecting value'')
      | c # cs \<Rightarrow>
          if c \<noteq> 123 then Inl (Failure ''a document that is not an object'')
          else
            (case (case dropWhile is_whitespace cs of
                     [] \<Rightarrow> Inl (ValueError
                                ''JSONDecodeError: Expecting property name enclosed in double quotes'')
                   | e # es \<Rightarrow> if e = 125 then Inr ([], es)
                              else parse_members [] (e # es)) of
               Inl err \<Rightarrow> Inl err
             | Inr (d, rest) \<Rightarrow>
                 if dropWhile is_whitespace rest = [] then Inr d
                 else Inl (ValueError ''JSONDecodeError: Extra data'')))"

subsection \<open>UTF-8\<close>

definition utf8_encode_char :: "nat \<Rightarrow> bytes option" where
  "utf8_encode_char c =
     (if c < 128 then Some [c]
      else if c < 2048 then Some [192 + c div 64, 128 + c mod 64]
      else if 55296 \<le> c \<and> c \<le> 57343 then None
      else if c < 65536 then Some [224 + c div 4096, 128 + c div 64 mod 64, 128 + c mod 64]
      else Some [240 + c div 262144, 128 + c div 4096 mod 64, 128 + c div 64 mod 64,
                 128 + c mod 64])"

fun utf8_encode :: "str \<Rightarrow> exc + bytes" where
  "utf8_encode [] = Inr []"
| "utf8_encode (c # cs) =
     (case utf8_encode_char c of
        None \<Rightarrow> Inl (ValueError ''UnicodeEncodeError: surrogates not allowed'')
      | Some b \<Rightarrow> (case utf8_encode cs of Inl e \<Rightarrow> Inl e | Inr bs \<Rightarrow> Inr (b @ bs)))"

definition continuation :: "nat \<Rightarrow> bool" where
  "continuation b = (128 \<le> b \<and> b \<le> 191)"

fun utf8_decode :: "bytes \<Rightarrow> exc + str" where
  "utf8_decode [] = Inr []"
| "utf8_decode (b # bs) =
     (if b < 128 then
        (case utf8_decode bs of Inl e \<Rightarrow> Inl e | Inr s \<Rightarrow> Inr (b # s))
      else if 194 \<le> b \<and> b \<le> 223 then
        (case bs of
           c1 # r \<Rightarrow>
             if continuation c1
             then (case utf8_decode r of
                     Inl e \<Rightarrow> Inl e
                   | Inr s \<Rightarrow> Inr (((b - 192) * 64 + (c1 - 128)) # s))
             else Inl (ValueError ''UnicodeDecodeError'')
         | _ \<Rightarrow> Inl (ValueError ''UnicodeDecodeError''))
      else if 224 \<le> b \<and> b \<le> 239 then
        (case bs of
           c1 # c2 # r \<Rightarrow>
             if continuation c1 \<and> continuation c2 \<and> (b = 224 \<longrightarrow> 160 \<le> c1) \<and>
                (b = 237 \<longrightarrow> c1 \<le> 159)
             then (case utf8_decode r of
                     Inl e \<Rightarrow> Inl e
                   | Inr s \<Rightarrow>
                       Inr (((b - 224) * 4096 + (c1 - 128) * 64 + (c2 - 128)) # s))
             else Inl (ValueError ''UnicodeDecodeError'')
         | _ \<Rightarrow> Inl (ValueError ''UnicodeDecodeError''))
      else if 240 \<le> b \<and> b \<le> 244 then
        (case bs of
           c1 # c2 # c3 # r \<Rightarrow>
             if continuation c1 \<and> continuation c2 \<and> continuation c3 \<and>
                (b = 240 \<longrightarrow> 144 \<le> c1) \<and> (b = 244 \<longrightarrow> c1 \<le> 143)
             then (case utf8_decode r of
                     Inl e \<Rightarrow> Inl e
                   | Inr s \<Rightarrow>
                       Inr (((b - 240) * 262144 + (c1 - 128) * 4096 + (c2 - 128) * 64 +
                             (c3 - 128)) # s))
             else Inl (ValueError ''UnicodeDecodeError'')
         | _ \<Rightarrow> Inl (ValueError ''UnicodeDecodeError''))
      else Inl (ValueError ''UnicodeDecodeError''))"

subsection \<open>Base64\<close>

definition b64_char :: "nat \<Rightarrow> nat" where
  "b64_char n =
     (if n < 26 then 65 + n
      else if n < 52 then 71 + n
      else if n < 62 then n - 4
      else if n = 62 then 43
      else 47)"

definition b64_value :: "nat \<Rightarrow> nat option" where
  "b64_value c =
     (if 65 \<le> c \<and> c \<le> 90 then Some (c - 65)
      else if 97 \<le> c \<and> c \<le> 122 then Some (c - 71)
      else if 48 \<le> c \<and> c \<le> 57 then Some (c + 4)
      else if c = 43 then Some 62
      else if c = 47 then Some 63
      else None)"

fun b64encode :: "bytes \<Rightarrow> bytes" where
  "b64encode (a # b # c # rest) =
     [b64_char (a div 4), b64_char (a mod 4 * 16 + b div 16),
      b64_char (b mod 16 * 4 + c div 64), b64_char (c mod 64)] @ b64encode rest"
| "b64encode [a, b] =
     [b64_char (a div 4), b64_char (a mod 4 * 16 + b div 16), b64_char (b mod 16 * 4), 61]"
| "b64encode [a] = [b64_char (a div 4), b64_char (a mod 4 * 16), 61, 61]"
| "b64encode [] = []"

text \<open>
  \<open>binascii.a2b_base64\<close>, not strict: characters outside the alphabet are skipped, and a
  pad sequence that completes a group of four ends the decoding.  The state is the position
  in the group, the bits left over and the number of pad characters seen; the result is
  the final position and the bytes.
\<close>

fun a2b_loop :: "bytes \<Rightarrow> nat \<Rightarrow> nat \<Rightarrow> nat \<Rightarrow> bytes \<Rightarrow> nat \<times> bytes" where
  "a2b_loop [] quad_pos leftchar pads out = (quad_pos, out)"
| "a2b_loop (this_ch # rest) quad_pos leftchar pads out =
     (if this_ch = 61 then
        (if 2 \<le> quad_pos
         then (if 4 \<le> quad_pos + (pads + 1) then (0, out)
               else a2b_loop rest quad_pos leftchar (pads + 1) out)
         else a2b_loop rest quad_pos leftchar pads out)
      else
        (case b64_value this_ch of
           None \<Rightarrow> a2b_loop rest quad_pos leftchar pads out
         | Some v \<Rightarrow>
             if quad_pos = 0 then a2b_loop rest 1 v 0 out
             else if quad_pos = 1
             then a2b_loop rest 2 (v mod 16) 0 (out @ [leftchar * 4 + v div 16])
             else if quad_pos = 2
             then a2b_loop rest 3 (v mod 4) 0 (out @ [leftchar * 16 + v div 4])
             else a2b_loop rest 0 0 0 (out @ [leftchar * 64 + v])))"

definition a2b_base64 :: "bytes \<Rightarrow> exc + bytes" where
  "a2b_base64 data =
     (case a2b_loop data 0 0 0 [] of
        (quad_pos, out) \<Rightarrow>
          if quad_pos = 0 then Inr out
          else if quad_pos = 1
          then Inl (ValueError
                 (''binascii.Error: Invalid base64-encoded string: number of data '' @
                  ''characters cannot be 1 more than a multiple of 4''))
          else Inl (ValueError ''binascii.Error: Incorrect padding''))"

text \<open>\<open>base64.b64decode\<close> of a string: the string has to be ASCII.\<close>

definition b64decode :: "str \<Rightarrow> exc + bytes" where
  "b64decode s =
     (if \<exists>c \<in> set s. 128 \<le> c
      then Inl (ValueError ''string argument should contain only ASCII characters'')
      else a2b_base64 s)"

subsection \<open>The two functions\<close>

definition encode_environ_backup :: "(str \<times> str) list \<Rightarrow> exc + str" where
  "encode_environ_backup environ_backup =
     (case utf8_encode (json_dumps environ_backup) of
        Inl e \<Rightarrow> Inl e
      | Inr b \<Rightarrow> utf8_decode (b64encode b))"

definition decode_environ_backup :: "str \<Rightarrow> exc + (str \<times> str) list" where
  "decode_environ_backup encoded_environ_backup =
     (case b64decode encoded_environ_backup of
        Inl e \<Rightarrow> Inl e
      | Inr b \<Rightarrow>
          (case utf8_decode b of
             Inl e \<Rightarrow> Inl e
           | Inr s \<Rightarrow> json_loads s))"

text \<open>Decoding what encoding returns.\<close>

definition round_trip :: "(str \<times> str) list \<Rightarrow> exc + (str \<times> str) list" where
  "round_trip d =
     (case encode_environ_backup d of
        Inl e \<Rightarrow> Inl e
      | Inr s \<Rightarrow> decode_environ_backup s)"

subsection \<open>The strings of the round trip\<close>

text \<open>The code points of a Python string are below \<open>0x110000\<close>.\<close>

definition code_points :: "str \<Rightarrow> bool" where
  "code_points s = list_all (\<lambda>c. c < 1114112) s"

definition high_surrogate :: "nat \<Rightarrow> bool" where
  "high_surrogate c = (55296 \<le> c \<and> c \<le> 56319)"

definition low_surrogate :: "nat \<Rightarrow> bool" where
  "low_surrogate c = (56320 \<le> c \<and> c \<le> 57343)"

text \<open>A high surrogate immediately followed by a low surrogate, somewhere in the string.\<close>

fun surrogate_pair :: "str \<Rightarrow> bool" where
  "surrogate_pair (c # d # s) = (high_surrogate c \<and> low_surrogate d \<or> surrogate_pair (d # s))"
| "surrogate_pair s = False"

text \<open>The strings of a dict: its keys and its values.\<close>

definition strings_of :: "(str \<times> str) list \<Rightarrow> str list" where
  "strings_of d = map fst d @ map snd d"

subsection \<open>Two backups\<close>

text \<open>
  \<open>HOME=/root\<close> and a variable \<open>k\<close> whose value has an accented letter, a newline, a quote,
  a code point above \<open>0xFFFF\<close>, and a low surrogate followed by a high surrogate.
\<close>

definition demo_backup :: "(str \<times> str) list" where
  "demo_backup =
     [([72, 79, 77, 69], [47, 114, 111, 111, 116]),
      ([107], [233, 10, 34, 128512, 56832, 55357])]"

text \<open>
  A variable \<open>k\<close> whose value is the high surrogate \<open>U+D83D\<close> followed by the low surrogate
  \<open>U+DE00\<close>, and the same variable with the single code point \<open>U+1F600\<close>.
\<close>

definition surrogate_backup :: "(str \<times> str) list" where
  "surrogate_backup = [([107], [55357, 56832])]"

definition joined_backup :: "(str \<times> str) list" where
  "joined_backup = [([107], [128512])]"

text \<open>
  The JSON document \<^verbatim>\<open>{"k": "\ud83d\ude00"}\<close> and its Base64 text
  \<^verbatim>\<open>eyJrIjogIlx1ZDgzZFx1ZGUwMCJ9\<close>.
\<close>

definition surrogate_text :: str where
  "surrogate_text =
     [123, 34, 107, 34, 58, 32, 34, 92, 117, 100, 56, 51, 100, 92, 117, 100, 101, 48, 48, 34,
      125]"

definition surrogate_encoded :: str where
  "surrogate_encoded =
     [101, 121, 74, 114, 73, 106, 111, 103, 73, 108, 120, 49, 90, 68, 103, 122, 90, 70, 120,
      49, 90, 71, 85, 119, 77, 67, 74, 57]"

section \<open>A small installation\<close>

text \<open>
  Four features over a world that lists the names disabled by configuration: \<open>core\<close>,
  \<open>docker\<close> (requires \<open>core\<close>), \<open>shell\<close> (requires \<open>core\<close>, optionally \<open>docker\<close>; its
  configuration disables its second action) and \<open>jinja\<close> (disabled by its configuration).
\<close>

definition demo_action :: "string \<Rightarrow> int \<Rightarrow> event_bindings \<Rightarrow> string list action" where
  "demo_action n ord bindings =
     \<lparr>a_name = n, a_order = ord, a_disabled = (\<lambda>w. n \<in> set w), a_event_bindings = bindings\<rparr>"

definition demo_feature ::
  "string \<Rightarrow> string list \<Rightarrow> string list \<Rightarrow> string list action list \<Rightarrow>
   (string list \<Rightarrow> exc + string list) \<Rightarrow> string list feature" where
  "demo_feature n deps cmds acts conf =
     \<lparr>f_name = n, f_dependencies = deps, f_disabled = (\<lambda>w. n \<in> set w),
      f_phases = (\<lambda>w. cmds), f_commands = (\<lambda>w. cmds), f_actions = (\<lambda>w. acts),
      f_binaries = (\<lambda>w. []), f_services = (\<lambda>w. []),
      f_before_load = Inr, f_configure = conf, f_after_load = Inr\<rparr>"

definition list_features_action :: "string list action" where
  "list_features_action = demo_action ''core:list-features'' 0 (Single ''phase:info'')"

definition emit_action :: "string list action" where
  "emit_action =
     demo_action ''docker:emit'' (- 5)
       (Several [EventName ''phase:info'', EventTuple [''file:generated'', ''apply'']])"

definition activate_action :: "string list action" where
  "activate_action = demo_action ''shell:activate'' 0 (Several [EventName ''phase:info''])"

definition deactivate_action :: "string list action" where
  "deactivate_action = demo_action ''shell:deactivate'' 0 (Single ''phase:info'')"

definition render_action :: "string list action" where
  "render_action = demo_action ''jinja:render'' 3 (Single ''phase:info'')"

definition core_feature :: "string list feature" where
  "core_feature = demo_feature ''core'' [] [''info''] [list_features_action] Inr"

definition docker_feature :: "string list feature" where
  "docker_feature = demo_feature ''docker'' [''core''] [] [emit_action] Inr"

definition shell_feature :: "string list feature" where
  "shell_feature =
     demo_feature ''shell'' [''core'', ''docker[optional]''] []
       [activate_action, deactivate_action] (\<lambda>w. Inr (''shell:deactivate'' # w))"

definition jinja_feature :: "string list feature" where
  "jinja_feature = demo_feature ''jinja'' [''core''] [] [render_action] (\<lambda>w. Inr (''jinja'' # w))"

definition info_args :: parsed_args where
  "info_args = \<lparr>command = Some ''info'', verbose = False, very_verbose = False, silent = False\<rparr>"

text \<open>
  A command that asks for one restart with the \<open>verbose\<close> flag set, and on the restarted run
  records one action error.
\<close>

definition demo_execute_command :: "string \<Rightarrow> (unit, string list state) prog" where
  "demo_execute_command cmd s =
     (if config_args s = Some info_args
      then (Inl (RestartWithArgs (info_args\<lparr>verbose := True\<rparr>)), s)
      else (Inr (), s\<lparr>exceptions := exceptions s @ [Failure ''boom'']\<rparr>))"

definition demo_ext :: "string list externals" where
  "demo_ext =
     \<lparr>config_load = returns (), register_default_caches = returns (),
      get_default_features = [shell_feature, jinja_feature, docker_feature, core_feature],
      iter_entry_points = [],
      config_dependencies = (\<lambda>w. Some [(''ghost'', [''core'']), (''docker'', [''phantom''])]),
      parse_known_args = (\<lambda>cmds args. Inr (info_args, [])),
      execute_command = demo_execute_command\<rparr>"

definition demo_state :: "string list state" where
  "demo_state =
     \<lparr>world = [], calls = [], features = [], phases = [], commands = [], actions = [],
      binaries = [], services = [], bus = [], log_level = ''INFO'', config_args = None,
      config_unknown_args = [], exceptions = []\<rparr>"

text \<open>
  A broken installation: \<open>needy\<close> requires a feature that does not exist, and \<open>needy\<close> and
  \<open>cyclic\<close> depend on each other.
\<close>

definition needy_feature :: "string list feature" where
  "needy_feature = demo_feature ''needy'' [''cyclic'', ''missing''] [] [] Inr"

definition cyclic_feature :: "string list feature" where
  "cyclic_feature = demo_feature ''cyclic'' [''needy''] [] [] Inr"

definition broken_ext :: "string list externals" where
  "broken_ext = demo_ext\<lparr>get_default_features := [needy_feature, cyclic_feature]\<rparr>"


text \<open>A state whose action registry holds four actions, in this registration order.\<close>

definition loaded_state :: "string list state" where
  "loaded_state =
     demo_state\<lparr>actions := [list_features_action, emit_action, activate_action, render_action]\<rparr>"

text \<open>A state whose feature registry holds the four features in dependency order.\<close>

definition registered_state :: "string list state" where
  "registered_state =
     demo_state\<lparr>features := [core_feature, docker_feature, jinja_feature, shell_feature]\<rparr>"

section \<open>Programs: basic facts\<close>

lemma and_then_Inr:
  "and_then m k s = (Inr b, s') \<longleftrightarrow> (\<exists>a s1. m s = (Inr a, s1) \<and> k a s1 = (Inr b, s'))"
  by (auto simp: and_then_def split: prod.splits sum.splits)

lemma and_then_Inl:
  "and_then m k s = (Inl e, s') \<longleftrightarrow>
     m s = (Inl e, s') \<or> (\<exists>a s1. m s = (Inr a, s1) \<and> k a s1 = (Inl e, s'))"
  by (auto simp: and_then_def split: prod.splits sum.splits)

section \<open>Feature graph resolution: lemmas\<close>

lemma dict_set_keys:
  "map fst (dict_set k v d) = (if k \<in> set (map fst d) then map fst d else map fst d @ [k])"
  by (induction d) force+

lemma dict_set_fresh: "k \<notin> set (map fst d) \<Longrightarrow> dict_set k v d = d @ [(k, v)]"
  by (induction d) auto

lemma dict_set_distinct: "distinct (map fst d) \<Longrightarrow> distinct (map fst (dict_set k v d))"
  by (simp add: dict_set_keys)


lemma fold_dict_set_distinct:
  "distinct (map fst d) \<Longrightarrow> distinct (map fst (fold (\<lambda>f. dict_set (f_name f) f) fs d))"
  by (induction fs arbitrary: d) (auto simp: dict_set_distinct)


lemma entrypoint_features_distinct: "distinct (map fst (entrypoint_features_of ext dfs))"
  unfolding entrypoint_features_of_def
  by (intro fold_dict_set_distinct) simp


lemma dependency_items_required:
  "fst (dependency_items ds (req, deps)) = req @ filter (\<lambda>d. \<not> endswith d ''[optional]'') ds"
  by (induction ds arbitrary: req deps) auto

lemma prepare_loop_distinct:
  "distinct (map fst items) \<Longrightarrow> set (map fst items) \<inter> set (map fst rd) = {} \<Longrightarrow>
   set (map fst items) \<inter> set (map fst td) = {} \<Longrightarrow>
   prepare_loop items (rd, td) =
     (rd @ map (\<lambda>(n, f). (n, fst (dependency_items (f_dependencies f) ([], [])))) items,
      td @ map (\<lambda>(n, f). (n, snd (dependency_items (f_dependencies f) ([], [])))) items)"
proof (induction items arbitrary: rd td)
  case Nil
  then show ?case by simp
next
  case (Cons p items)
  obtain n f where p: "p = (n, f)" by (cases p)
  obtain r t where rt: "dependency_items (f_dependencies f) ([], []) = (r, t)"
    by (cases "dependency_items (f_dependencies f) ([], [])")
  have fresh: "n \<notin> set (map fst rd)" "n \<notin> set (map fst td)"
    using Cons.prems p by auto
  have "prepare_loop (p # items) (rd, td) = prepare_loop items (rd @ [(n, r)], td @ [(n, t)])"
    using p rt fresh by (simp add: dict_set_fresh)
  also have "\<dots> = ((rd @ [(n, r)]) @ map (\<lambda>(n, f). (n, fst (dependency_items (f_dependencies f) ([], [])))) items,
      (td @ [(n, t)]) @ map (\<lambda>(n, f). (n, snd (dependency_items (f_dependencies f) ([], [])))) items)"
    using Cons.prems p by (intro Cons.IH) auto
  finally show ?case using p rt by simp
qed

lemma prepare_required:
  "distinct (map fst efs) \<Longrightarrow>
   fst (prepare_dependencies_data efs) = map (\<lambda>(n, f). (n, required_of f)) efs"
  by (simp add: prepare_dependencies_data_def prepare_loop_distinct required_of_def
      dependency_items_required)

lemma check_feature_Inr: "check_feature keys n req = Inr () \<longleftrightarrow> set req \<subseteq> set keys"
  by (induction req) auto

lemma check_feature_Inl:
  "check_feature keys n req = Inl e \<Longrightarrow>
   \<exists>d \<in> set req. d \<notin> set keys \<and> e = ValueError (missing_message n d)"
  by (induction req) (auto split: if_splits)

lemma check_loop_Inr:
  "check_loop keys rds = Inr () \<longleftrightarrow> (\<forall>(n, req) \<in> set rds. set req \<subseteq> set keys)"
proof (induction rds)
  case Nil
  then show ?case by simp
next
  case (Cons p rds)
  obtain n req where p: "p = (n, req)" by (cases p)
  show ?case
  proof (cases "check_feature keys n req")
    case (Inl e)
    then have "\<not> set req \<subseteq> set keys"
      using check_feature_Inr[of keys n req] by auto
    then show ?thesis using Inl p by simp
  next
    case (Inr u)
    then have "set req \<subseteq> set keys"
      using check_feature_Inr[of keys n req] by simp
    then show ?thesis using Inr p Cons.IH by simp
  qed
qed

lemma check_loop_Inl:
  "check_loop keys rds = Inl e \<Longrightarrow>
   \<exists>(n, req) \<in> set rds. \<exists>d \<in> set req. d \<notin> set keys \<and> e = ValueError (missing_message n d)"
  by (induction rds) (auto split: sum.splits dest: check_feature_Inl)
















lemma main_stops_at_register_features:
  "config_load ext s0 = (Inr (), s1) \<Longrightarrow> register_default_caches ext s1 = (Inr (), s2) \<Longrightarrow>
   register_features ext (get_default_features ext) s2 = (Inl e, s3) \<Longrightarrow>
   main ext args s0 = (Inl e, s3)"
  by (simp add: main_def and_then_def)






subsection \<open>The sorted names are distinct\<close>












section \<open>Feature graph resolution: the claims\<close>

text \<open>
  C3.  If some discovered feature declares a dependency without the \<open>[optional]\<close> suffix
  whose name is not a key of the feature mapping, then \<open>register_features\<close> raises
  \<open>ValueError\<close> with the message naming such a feature and its missing dependency, whatever
  the dependency overrides are (also when the graph has a cycle, so before any sort), and
  leaves the state as it was: nothing is registered and no hook has run.  In \<open>main\<close> the
  error ends the run in the state left by the cache registration.
\<close>

theorem register_features_missing_required_dependency:
  assumes "(name, feat) \<in> set (entrypoint_features_of ext default_features)"
    and "dep \<in> set (f_dependencies feat)"
    and "\<not> endswith dep ''[optional]''"
    and "dep \<notin> fst ` set (entrypoint_features_of ext default_features)"
  shows "\<exists>n f d.
           (n, f) \<in> set (entrypoint_features_of ext default_features) \<and>
           d \<in> set (f_dependencies f) \<and> \<not> endswith d ''[optional]'' \<and>
           d \<notin> fst ` set (entrypoint_features_of ext default_features) \<and>
           (\<forall>s. register_features ext default_features s =
                  (Inl (ValueError (missing_message n d)), s)) \<and>
           (default_features = get_default_features ext \<longrightarrow>
              (\<forall>args s0 s1 s2.
                 config_load ext s0 = (Inr (), s1) \<longrightarrow>
                 register_default_caches ext s1 = (Inr (), s2) \<longrightarrow>
                 main ext args s0 = (Inl (ValueError (missing_message n d)), s2)))"
proof -
  let ?efs = "entrypoint_features_of ext default_features"
  obtain rd td where p: "prepare_dependencies_data ?efs = (rd, td)"
    by (cases "prepare_dependencies_data ?efs")
  have rd: "rd = map (\<lambda>(n, f). (n, required_of f)) ?efs"
    using prepare_required[OF entrypoint_features_distinct, of ext default_features] p by simp
  have "\<not> (\<forall>(n, req) \<in> set rd. set req \<subseteq> set (map fst ?efs))"
    using assms unfolding rd required_of_def by force
  then have "check_missing_dependencies ?efs rd \<noteq> Inr ()"
    by (simp add: check_missing_dependencies_def check_loop_Inr)
  then obtain e where e: "check_missing_dependencies ?efs rd = Inl e"
    by (cases "check_missing_dependencies ?efs rd") auto
  then obtain n d f where nd: "(n, f) \<in> set ?efs" "d \<in> set (required_of f)"
    "d \<notin> set (map fst ?efs)" "e = ValueError (missing_message n d)"
    unfolding check_missing_dependencies_def rd
    by (auto dest!: check_loop_Inl)
  have r: "\<forall>s. register_features ext default_features s = (Inl e, s)"
    using p e by (simp add: register_features_def)
  have m: "default_features = get_default_features ext \<longrightarrow>
              (\<forall>args s0 s1 s2.
                 config_load ext s0 = (Inr (), s1) \<longrightarrow>
                 register_default_caches ext s1 = (Inr (), s2) \<longrightarrow>
                 main ext args s0 = (Inl e, s2))"
    using r main_stops_at_register_features by metis
  show ?thesis
    using nd r m unfolding required_of_def by auto
qed


theorem register_features_missing_required_dependency_witness:
  "(''needy'', needy_feature) \<in>
      set (entrypoint_features_of broken_ext (get_default_features broken_ext)) \<and>
   ''missing'' \<in> set (f_dependencies needy_feature) \<and>
   \<not> endswith ''missing'' ''[optional]'' \<and>
   ''missing'' \<notin> fst ` set (entrypoint_features_of broken_ext (get_default_features broken_ext)) \<and>
   (\<exists>n d. main broken_ext None demo_state = (Inl (ValueError (missing_message n d)), demo_state)) \<and>
   fst (register_features broken_ext (get_default_features broken_ext) demo_state) =
     Inl (ValueError ''A required dependency is missing for needy feature (missing)'')"
proof -
  have efs: "entrypoint_features_of broken_ext (get_default_features broken_ext) =
      [(''needy'', needy_feature), (''cyclic'', cyclic_feature)]"
    by (simp add: entrypoint_features_of_def broken_ext_def demo_ext_def needy_feature_def
        cyclic_feature_def demo_feature_def)
  have h1: "(''needy'', needy_feature) \<in>
      set (entrypoint_features_of broken_ext (get_default_features broken_ext))"
    by (simp add: efs)
  have h2: "''missing'' \<in> set (f_dependencies needy_feature)"
    by (simp add: needy_feature_def demo_feature_def)
  have h3: "\<not> endswith ''missing'' ''[optional]''"
    by (simp add: endswith_def)
  have h4: "''missing'' \<notin>
      fst ` set (entrypoint_features_of broken_ext (get_default_features broken_ext))"
    by (simp add: efs)
  have c: "config_load broken_ext demo_state = (Inr (), demo_state)"
    "register_default_caches broken_ext demo_state = (Inr (), demo_state)"
    by (simp_all add: broken_ext_def demo_ext_def returns_def)
  have v: "fst (register_features broken_ext (get_default_features broken_ext) demo_state) =
     Inl (ValueError ''A required dependency is missing for needy feature (missing)'')"
    by code_simp
  from register_features_missing_required_dependency[OF h1 h2 h3 h4]
  have "\<exists>n d. main broken_ext None demo_state = (Inl (ValueError (missing_message n d)), demo_state)"
    using c by blast
  then show ?thesis using h1 h2 h3 h4 v by blast
qed









section \<open>Binding actions to the event bus: lemmas\<close>


lemma for_each_appended:
  assumes "\<And>x s. body x s = (res x, s\<lparr>bus := bus s @ add x\<rparr>)"
  shows "for_each body xs s =
           (fst (appended res add xs), s\<lparr>bus := bus s @ snd (appended res add xs)\<rparr>)"
proof (induction xs arbitrary: s)
  case Nil
  then show ?case by simp
next
  case (Cons x xs)
  have step: "body x s = (res x, s\<lparr>bus := bus s @ add x\<rparr>)"
    by (rule assms)
  show ?case
  proof (cases "res x")
    case (Inl e)
    then show ?thesis using step by simp
  next
    case (Inr u)
    then show ?thesis
      using step Cons.IH[of "s\<lparr>bus := bus s @ add x\<rparr>"] by simp
  qed
qed

lemma appended_fst_cong:
  "fst (appended res add xs) = fst (appended res add' xs)"
  by (induction xs) (auto split: sum.splits)

lemma bind_event_binding_pure:
  "bind_event_binding ff a b s =
     (binding_result b, s\<lparr>bus := bus s @ binding_added ff a b\<rparr>)"
  by (induction ff a b rule: bind_event_binding.induct) (simp_all add: bus_on_def raise_def)

lemma bind_action_pure:
  "bind_action ff a s = (action_result a, s\<lparr>bus := bus s @ action_added ff a\<rparr>)"
proof (cases "a_event_bindings a")
  case (Single e)
  then show ?thesis
    by (simp add: bind_action_def action_result_def action_added_def bus_on_def)
next
  case (Several bs)
  have "for_each (bind_event_binding ff a) bs s =
      (fst (appended binding_result (binding_added ff a) bs),
       s\<lparr>bus := bus s @ snd (appended binding_result (binding_added ff a) bs)\<rparr>)"
    by (rule for_each_appended) (rule bind_event_binding_pure)
  then show ?thesis
    using Several appended_fst_cong[of binding_result "binding_added ff a" bs "\<lambda>b. [b]"]
    by (simp add: bind_action_def action_result_def action_added_def)
qed

lemma register_pure:
  "register_actions_in_event_bus ff s =
     (fst (appended action_result (action_added ff) (sort_key a_order (actions s))),
      s\<lparr>bus := bus s @ snd (appended action_result (action_added ff) (sort_key a_order (actions s)))\<rparr>)"
  unfolding register_actions_in_event_bus_def Let_def
  by (rule for_each_appended) (rule bind_action_pure)

lemma bound_by_pure:
  "bound_by ff as s = snd (appended action_result (action_added ff) as)"
proof -
  have "for_each (bind_action ff) as s =
     (fst (appended action_result (action_added ff) as),
      s\<lparr>bus := bus s @ snd (appended action_result (action_added ff) as)\<rparr>)"
    by (rule for_each_appended) (rule bind_action_pure)
  then show ?thesis by (simp add: bound_by_def)
qed

lemma binding_added_action:
  "p \<in> set (binding_added ff a b) \<Longrightarrow> r_action (snd p) = a"
  by (induction ff a b rule: binding_added.induct)
     (auto simp: action_event_binding_runner_factory_def)

lemma appended_member:
  "y \<in> set (snd (appended res add xs)) \<Longrightarrow> \<exists>x \<in> set xs. y \<in> set (add x)"
proof (induction xs)
  case Nil
  then show ?case by simp
next
  case (Cons x xs)
  then show ?case by (cases "res x") auto
qed

lemma action_added_action:
  assumes "p \<in> set (action_added ff a)"
  shows "r_action (snd p) = a"
proof (cases "a_event_bindings a")
  case (Single e)
  then show ?thesis using assms
    by (auto simp: action_added_def action_event_binding_runner_factory_def)
next
  case (Several bs)
  then have "p \<in> set (snd (appended binding_result (binding_added ff a) bs))"
    using assms by (simp add: action_added_def)
  then obtain b where "p \<in> set (binding_added ff a b)"
    using appended_member[of p binding_result "binding_added ff a" bs] by blast
  then show ?thesis by (rule binding_added_action)
qed

lemma appended_all:
  "fst (appended res add xs) = Inr () \<longleftrightarrow> (\<forall>x \<in> set xs. res x = Inr ())"
proof (induction xs)
  case Nil
  then show ?case by simp
next
  case (Cons x xs)
  then show ?case by (cases "res x") auto
qed

lemma appended_complete:
  "\<forall>x \<in> set xs. res x = Inr () \<Longrightarrow> snd (appended res add xs) = concat (map add xs)"
  by (induction xs) auto

lemma sorted_constant: "\<forall>y \<in> set ys. g y = c \<Longrightarrow> sorted (map g ys)"
  by (induction ys) auto

lemma appended_sorted:
  fixes f :: "'a \<Rightarrow> int"
  assumes "sorted (map f xs)" and "\<And>x y. y \<in> set (add x) \<Longrightarrow> g y = f x"
  shows "sorted (map g (snd (appended res add xs)))"
  using assms(1)
proof (induction xs)
  case Nil
  then show ?case by simp
next
  case (Cons x xs)
  have const: "sorted (map g (add x))"
    using assms(2) by (intro sorted_constant[of _ _ "f x"]) simp
  show ?case
  proof (cases "res x")
    case (Inl e)
    then show ?thesis using const by simp
  next
    case (Inr u)
    have rest: "sorted (map g (snd (appended res add xs)))"
      using Cons by simp
    have "\<forall>a \<in> set (add x). \<forall>b \<in> set (snd (appended res add xs)). g a \<le> g b"
    proof (intro ballI)
      fix a b assume a: "a \<in> set (add x)" and b: "b \<in> set (snd (appended res add xs))"
      from appended_member[of b res add xs, OF b] obtain x' where x': "x' \<in> set xs" "b \<in> set (add x')" by blast
      have "f x \<le> f x'" using Cons.prems x'(1) by auto
      then show "g a \<le> g b" using assms(2)[OF a] assms(2)[OF x'(2)] by simp
    qed
    then show ?thesis using Inr const rest by (simp add: sorted_append)
  qed
qed


lemma bus_handlers_append:
  "bus_handlers e (xs @ ys) = bus_handlers e xs @ bus_handlers e ys"
  by (simp add: bus_handlers_def)

lemma bus_handlers_action:
  "h \<in> set (bus_handlers e (action_added ff a)) \<Longrightarrow> r_action h = a"
  using action_added_action[of _ ff a] by (auto simp: bus_handlers_def)

lemma filter_handlers_of_action:
  "filter (\<lambda>h. a_order (r_action h) = k) (bus_handlers e (action_added ff a)) =
     (if a_order a = k then bus_handlers e (action_added ff a) else [])"
proof -
  have "\<forall>h \<in> set (bus_handlers e (action_added ff a)). a_order (r_action h) = a_order a"
    using bus_handlers_action by fastforce
  then show ?thesis
    by (simp add: filter_empty_conv)
qed

lemma filter_handlers:
  "filter (\<lambda>h. a_order (r_action h) = k)
     (bus_handlers e (concat (map (action_added ff) xs))) =
   bus_handlers e (concat (map (action_added ff) (filter (\<lambda>a. a_order a = k) xs)))"
proof (induction xs)
  case Nil
  then show ?case by (simp add: bus_handlers_def)
next
  case (Cons x xs)
  then show ?case
    by (simp add: bus_handlers_append filter_handlers_of_action)
qed


lemma insort_key_rel:
  assumes "\<And>x y. R x y \<Longrightarrow> f x = f y"
  shows "list_all2 R xs ys \<Longrightarrow> R x y \<Longrightarrow>
         list_all2 R (insort_key f x xs) (insort_key f y ys)"
proof (induction rule: list_all2_induct)
  case Nil
  then show ?case by simp
next
  case (Cons a xs b ys)
  have "f a = f b" "f x = f y" using Cons assms by auto
  then show ?case using Cons by simp
qed

lemma sort_key_rel:
  assumes "\<And>x y. R x y \<Longrightarrow> f x = f y"
  shows "list_all2 R xs ys \<Longrightarrow> list_all2 R (sort_key f xs) (sort_key f ys)"
proof (induction rule: list_all2_induct)
  case Nil
  then show ?case by simp
next
  case (Cons a xs b ys)
  then show ?case
    using insort_key_rel[of R f, OF assms] by simp
qed

lemma appended_rel:
  assumes "\<And>x y. R x y \<Longrightarrow> res x = res' y \<and> map v (add x) = map v (add' y)"
  shows "list_all2 R xs ys \<Longrightarrow>
         fst (appended res add xs) = fst (appended res' add' ys) \<and>
         map v (snd (appended res add xs)) = map v (snd (appended res' add' ys))"
proof (induction rule: list_all2_induct)
  case Nil
  then show ?case by simp
next
  case (Cons x xs y ys)
  have "res x = res' y" "map v (add x) = map v (add' y)"
    using assms[OF Cons.hyps(1)] by auto
  then show ?case using Cons.IH by (cases "res' y") auto
qed


section \<open>Feature lifecycle: lemmas\<close>


lemma hook_loop:
  assumes "\<And>f s. body f s =
      (case hook f (world s) of
         Inl e \<Rightarrow> (Inl e, s\<lparr>calls := calls s @ [ev (f_name f)]\<rparr>)
       | Inr w \<Rightarrow> (Inr (), s\<lparr>calls := calls s @ [ev (f_name f)], world := w\<rparr>))"
  shows "for_each body fs s = (r, s') \<Longrightarrow>
         \<exists>k w. k \<le> length fs \<and>
           s' = s\<lparr>calls := calls s @ map (\<lambda>f. ev (f_name f)) (take k fs), world := w\<rparr> \<and>
           (r = Inr () \<longrightarrow> k = length fs)"
proof (induction fs arbitrary: s)
  case Nil
  then have "s' = s" "r = Inr ()" by auto
  then show ?case by (intro exI[of _ 0] exI[of _ "world s"]) simp
next
  case (Cons f fs)
  show ?case
  proof (cases "hook f (world s)")
    case (Inl e)
    then have "r = Inl e" "s' = s\<lparr>calls := calls s @ [ev (f_name f)]\<rparr>"
      using Cons.prems assms[of f s] by auto
    then have "Suc 0 \<le> length (f # fs) \<and>
        s' = s\<lparr>calls := calls s @ map (\<lambda>f. ev (f_name f)) (take (Suc 0) (f # fs)), world := world s\<rparr> \<and>
        (r = Inr () \<longrightarrow> Suc 0 = length (f # fs))"
      by simp
    then show ?thesis by blast
  next
    case (Inr w)
    let ?s1 = "s\<lparr>calls := calls s @ [ev (f_name f)], world := w\<rparr>"
    have "for_each body fs ?s1 = (r, s')"
      using Cons.prems assms[of f s] Inr by simp
    from Cons.IH[OF this] obtain k w' where k: "k \<le> length fs"
      "s' = ?s1\<lparr>calls := calls ?s1 @ map (\<lambda>f. ev (f_name f)) (take k fs), world := w'\<rparr>"
      "r = Inr () \<longrightarrow> k = length fs"
      by blast
    have "Suc k \<le> length (f # fs) \<and>
        s' = s\<lparr>calls := calls s @ map (\<lambda>f. ev (f_name f)) (take (Suc k) (f # fs)), world := w'\<rparr> \<and>
        (r = Inr () \<longrightarrow> Suc k = length (f # fs))"
      using k by simp
    then show ?thesis by blast
  qed
qed

lemma before_load_loop:
  "for_each before_load fs s = (r, s') \<Longrightarrow>
   \<exists>k w. k \<le> length fs \<and>
     s' = s\<lparr>calls := calls s @ map (\<lambda>f. BeforeLoad (f_name f)) (take k fs), world := w\<rparr> \<and>
     (r = Inr () \<longrightarrow> k = length fs)"
  by (rule hook_loop[where hook = f_before_load])
     (auto simp: before_load_def Let_def split: sum.splits)

lemma configure_loop:
  "for_each configure fs s = (r, s') \<Longrightarrow>
   \<exists>k w. k \<le> length fs \<and>
     s' = s\<lparr>calls := calls s @ map (\<lambda>f. Configure (f_name f)) (take k fs), world := w\<rparr> \<and>
     (r = Inr () \<longrightarrow> k = length fs)"
  by (rule hook_loop[where hook = f_configure])
     (auto simp: configure_def Let_def split: sum.splits)

lemma after_load_loop:
  "for_each after_load fs s = (r, s') \<Longrightarrow>
   \<exists>k w. k \<le> length fs \<and>
     s' = s\<lparr>calls := calls s @ map (\<lambda>f. AfterLoad (f_name f)) (take k fs), world := w\<rparr> \<and>
     (r = Inr () \<longrightarrow> k = length fs)"
  by (rule hook_loop[where hook = f_after_load])
     (auto simp: after_load_def Let_def split: sum.splits)

lemma register_loop:
  assumes "\<And>v s. calls (reg_put reg v s) = calls s"
    and "\<And>v s. reg_all reg (reg_put reg v s) = v"
    and "\<And>c s. reg_all reg (s\<lparr>calls := c\<rparr>) = reg_all reg s"
    and "\<And>v u s. reg_put reg v (reg_put reg u s) = reg_put reg v s"
    and "\<And>v c s. reg_put reg v (s\<lparr>calls := c\<rparr>) = (reg_put reg v s)\<lparr>calls := c\<rparr>"
    and "\<And>s. reg_put reg (reg_all reg s) s = s"
  shows "for_each (registry_register reg) objs s = (r, s') \<Longrightarrow>
         \<exists>k. k \<le> length objs \<and>
           s' = (reg_put reg (reg_all reg s @ take k objs) s)
                  \<lparr>calls := calls s @
                     map (\<lambda>obj. Registered (reg_kind reg) (reg_name reg obj)) (take k objs)\<rparr> \<and>
           (k = 0 \<longrightarrow> s' = s) \<and>
           (r = Inr () \<longrightarrow> k = length objs)"
proof (induction objs arbitrary: s)
  case Nil
  then have "s' = s" "r = Inr ()" by auto
  then show ?case by (intro exI[of _ 0]) (simp add: assms(6))
next
  case (Cons obj objs)
  show ?case
  proof (cases "reg_name reg obj \<in> set (map (reg_name reg) (reg_all reg s))")
    case True
    then have "r = Inl (DuplicateNameError (reg_name reg obj))" "s' = s"
      using Cons.prems by (auto simp: registry_register_def)
    then show ?thesis
      by (intro exI[of _ 0]) (simp add: assms(6))
  next
    case False
    let ?s1 = "(reg_put reg (reg_all reg s @ [obj]) s)
                 \<lparr>calls := calls s @ [Registered (reg_kind reg) (reg_name reg obj)]\<rparr>"
    have one: "registry_register reg obj s = (Inr (), ?s1)"
      using False by (simp add: registry_register_def)
    then have "for_each (registry_register reg) objs ?s1 = (r, s')"
      using Cons.prems by simp
    from Cons.IH[OF this] obtain k where k: "k \<le> length objs"
      "s' = (reg_put reg (reg_all reg ?s1 @ take k objs) ?s1)
              \<lparr>calls := calls ?s1 @
                 map (\<lambda>obj. Registered (reg_kind reg) (reg_name reg obj)) (take k objs)\<rparr>"
      "r = Inr () \<longrightarrow> k = length objs"
      by blast
    have all1: "reg_all reg ?s1 = reg_all reg s @ [obj]"
      by (simp add: assms(2,3))
    have "s' = (reg_put reg (reg_all reg s @ take (Suc k) (obj # objs)) s)
              \<lparr>calls := calls s @
                 map (\<lambda>obj. Registered (reg_kind reg) (reg_name reg obj)) (take (Suc k) (obj # objs))\<rparr>"
      unfolding k(2) all1 by (simp add: assms)
    then show ?thesis
      using k(1,3) by (intro exI[of _ "Suc k"]) simp
  qed
qed


lemma stepsI: "(\<And>s r s'. m s = (r, s') \<Longrightarrow> R (\<not> isl r) s s') \<Longrightarrow> steps R m"
  by (simp add: steps_def)

lemma stepsD: "steps R m \<Longrightarrow> m s = (r, s') \<Longrightarrow> R (\<not> isl r) s s'"
  by (simp add: steps_def)

lemma steps_and_then:
  assumes "steps R1 m" and "\<And>a. steps R2 (k a)"
    and "\<And>s s'. R1 False s s' \<Longrightarrow> R3 False s s'"
    and "\<And>b s s1 s'. R1 True s s1 \<Longrightarrow> R2 b s1 s' \<Longrightarrow> R3 b s s'"
  shows "steps R3 (and_then m k)"
proof (rule stepsI)
  fix s r s' assume run: "and_then m k s = (r, s')"
  obtain r1 s1 where m: "m s = (r1, s1)" by (cases "m s")
  show "R3 (\<not> isl r) s s'"
  proof (cases r1)
    case (Inl e)
    then have "r = Inl e" "s' = s1" using run m by (simp_all add: and_then_def)
    moreover have "R1 False s s1" using stepsD[OF assms(1) m] Inl by simp
    ultimately show ?thesis using assms(3) by simp
  next
    case (Inr a)
    then have "k a s1 = (r, s')" using run m by (simp add: and_then_def)
    then have "R2 (\<not> isl r) s1 s'" using stepsD[OF assms(2)] by blast
    moreover have "R1 True s s1" using stepsD[OF assms(1) m] Inr by simp
    ultimately show ?thesis using assms(4) by blast
  qed
qed

lemma steps_returns: "(\<And>s. R True s s) \<Longrightarrow> steps R (returns a)"
  by (rule stepsI) (auto simp: returns_def)

lemma steps_weaken: "steps R m \<Longrightarrow> (\<And>b s s'. R b s s' \<Longrightarrow> R' b s s') \<Longrightarrow> steps R' m"
  by (auto simp: steps_def)

lemma staged_compose:
  assumes "staged lo hi b s s1" and "staged lo' hi' b' s1 s'" and "hi \<le> lo'"
  shows "staged (min lo lo') (max hi hi') b'' s s'"
proof -
  from assms(1) obtain n1 where n1: "calls s1 = calls s @ n1" "sorted (map stage n1)"
    "\<forall>c \<in> set n1. lo \<le> stage c \<and> stage c \<le> hi"
    unfolding staged_def by blast
  from assms(2) obtain n2 where n2: "calls s' = calls s1 @ n2" "sorted (map stage n2)"
    "\<forall>c \<in> set n2. lo' \<le> stage c \<and> stage c \<le> hi'"
    unfolding staged_def by blast
  have "calls s' = calls s @ (n1 @ n2)" using n1(1) n2(1) by simp
  moreover have "sorted (map stage (n1 @ n2))"
    using n1(2,3) n2(2,3) assms(3) by (fastforce simp: sorted_append)
  moreover have "\<forall>c \<in> set (n1 @ n2). min lo lo' \<le> stage c \<and> stage c \<le> max hi hi'"
    using n1(3) n2(3) by fastforce
  ultimately show ?thesis unfolding staged_def by blast
qed

lemma staged_refl: "staged lo hi b s s"
  by (simp add: staged_def)

lemma staged_widen: "staged lo hi b s s' \<Longrightarrow> lo' \<le> lo \<Longrightarrow> hi \<le> hi' \<Longrightarrow> staged lo' hi' b' s s'"
  unfolding staged_def by fastforce

lemma staged_and_then:
  assumes "steps (staged lo hi) m" and "\<And>a. steps (staged lo' hi') (k a)" and "hi \<le> lo'"
    and "lo \<le> lo'" and "hi \<le> hi'"
  shows "steps (staged lo hi') (and_then m k)"
proof (rule steps_and_then[OF assms(1,2)])
  show "\<And>s s'. staged lo hi False s s' \<Longrightarrow> staged lo hi' False s s'"
    using assms(5) staged_widen[of lo hi False _ _ lo hi' False] by simp
  show "\<And>b s s1 s'. staged lo hi True s s1 \<Longrightarrow> staged lo' hi' b s1 s' \<Longrightarrow> staged lo hi' b s s'"
  proof -
    fix b s s1 s' assume "staged lo hi True s s1" "staged lo' hi' b s1 s'"
    from staged_compose[OF this assms(3), of b]
    show "staged lo hi' b s s'"
      using assms(4,5) by (simp add: min_def max_def)
  qed
qed


lemma load_unfold:
  "load_registered_features s =
     and_then (for_each before_load (features s)) (\<lambda>_.
     and_then (for_each configure (features s)) (\<lambda>_. load_tail (features s))) s"
proof -
  have "load_tail (features s) =
      (\<lambda>s2. register_enabled (filter (\<lambda>f. \<not> f_disabled f (world s2)) (features s)) s2)"
    by (rule ext) (simp add: load_tail_def)
  then show ?thesis
    by (simp add: load_registered_features_def register_enabled_def Let_def)
qed

lemma well_behaved_registries:
  "well_behaved phases_registry" "well_behaved commands_registry"
  "well_behaved actions_registry" "well_behaved binaries_registry"
  "well_behaved services_registry"
  by (simp_all add: well_behaved_def phases_registry_def commands_registry_def
      actions_registry_def binaries_registry_def services_registry_def)

lemma register_objects_effect:
  assumes "well_behaved reg" and "register_objects fl getter reg s = (r, s')"
  shows "\<exists>k. k \<le> length (concat (map (\<lambda>f. getter f (world s)) fl)) \<and>
           s' = (reg_put reg (reg_all reg s @ take k (concat (map (\<lambda>f. getter f (world s)) fl))) s)
                  \<lparr>calls := calls s @
                     map (\<lambda>obj. Registered (reg_kind reg) (reg_name reg obj))
                       (take k (concat (map (\<lambda>f. getter f (world s)) fl)))\<rparr> \<and>
           (k = 0 \<longrightarrow> s' = s) \<and>
           (r = Inr () \<longrightarrow> k = length (concat (map (\<lambda>f. getter f (world s)) fl)))"
proof -
  have run: "for_each (registry_register reg) (concat (map (\<lambda>f. getter f (world s)) fl)) s = (r, s')"
    using assms(2) by (simp add: register_objects_def)
  show ?thesis
    using assms(1) unfolding well_behaved_def
    by (intro register_loop[OF _ _ _ _ _ _ run]) blast+
qed

lemma staged_hook_loops:
  "steps (staged 0 0) (for_each before_load fs)"
  "steps (staged 1 1) (for_each configure fs)"
  "steps (staged 7 7) (for_each after_load fs)"
proof -
  show "steps (staged 0 0) (for_each before_load fs)"
  proof (rule stepsI)
    fix s r s' assume "for_each before_load fs s = (r, s')"
    from before_load_loop[OF this] obtain k w where
      "s' = s\<lparr>calls := calls s @ map (\<lambda>f. BeforeLoad (f_name f)) (take k fs), world := w\<rparr>"
      by blast
    then have "calls s' = calls s @ map (\<lambda>f. BeforeLoad (f_name f)) (take k fs)" by simp
    then show "staged 0 0 (\<not> isl r) s s'"
      unfolding staged_def by (intro exI[of _ "map (\<lambda>f. BeforeLoad (f_name f)) (take k fs)"])
        (auto intro: sorted_constant[of _ _ 0])
  qed
  show "steps (staged 1 1) (for_each configure fs)"
  proof (rule stepsI)
    fix s r s' assume "for_each configure fs s = (r, s')"
    from configure_loop[OF this] obtain k w where
      "s' = s\<lparr>calls := calls s @ map (\<lambda>f. Configure (f_name f)) (take k fs), world := w\<rparr>"
      by blast
    then have "calls s' = calls s @ map (\<lambda>f. Configure (f_name f)) (take k fs)" by simp
    then show "staged 1 1 (\<not> isl r) s s'"
      unfolding staged_def by (intro exI[of _ "map (\<lambda>f. Configure (f_name f)) (take k fs)"])
        (auto intro: sorted_constant[of _ _ 1])
  qed
  show "steps (staged 7 7) (for_each after_load fs)"
  proof (rule stepsI)
    fix s r s' assume "for_each after_load fs s = (r, s')"
    from after_load_loop[OF this] obtain k w where
      "s' = s\<lparr>calls := calls s @ map (\<lambda>f. AfterLoad (f_name f)) (take k fs), world := w\<rparr>"
      by blast
    then have "calls s' = calls s @ map (\<lambda>f. AfterLoad (f_name f)) (take k fs)" by simp
    then show "staged 7 7 (\<not> isl r) s s'"
      unfolding staged_def by (intro exI[of _ "map (\<lambda>f. AfterLoad (f_name f)) (take k fs)"])
        (auto intro: sorted_constant[of _ _ 7])
  qed
qed

lemma staged_register_objects:
  assumes "well_behaved reg" and "\<And>n. stage (Registered (reg_kind reg) n) = st"
  shows "steps (staged st st) (register_objects fl getter reg)"
proof (rule stepsI)
  fix s r s' assume "register_objects fl getter reg s = (r, s')"
  from register_objects_effect[OF assms(1) this] obtain k where
    "s' = (reg_put reg (reg_all reg s @ take k (concat (map (\<lambda>f. getter f (world s)) fl))) s)
                  \<lparr>calls := calls s @
                     map (\<lambda>obj. Registered (reg_kind reg) (reg_name reg obj))
                       (take k (concat (map (\<lambda>f. getter f (world s)) fl)))\<rparr>"
    by blast
  then have "calls s' = calls s @ map (\<lambda>obj. Registered (reg_kind reg) (reg_name reg obj))
                       (take k (concat (map (\<lambda>f. getter f (world s)) fl)))"
    by simp
  then show "staged st st (\<not> isl r) s s'"
    unfolding staged_def
    by (intro exI[of _ "map (\<lambda>obj. Registered (reg_kind reg) (reg_name reg obj))
                       (take k (concat (map (\<lambda>f. getter f (world s)) fl)))"])
       (auto simp: assms(2) intro: sorted_constant[of _ _ st])
qed

lemma staged_register_enabled:
  fixes enabled :: "'w feature list"
  shows "steps (staged 2 7) (register_enabled enabled)"
proof -
  have r: "steps (staged 7 7) (returns enabled :: ('w feature list, 'w state) prog)"
    by (rule steps_returns) (rule staged_refl)
  have a: "steps (staged 7 7) (and_then (for_each after_load enabled) (\<lambda>_. returns enabled))"
    by (rule staged_and_then[where lo' = 7 and hi' = 7, OF staged_hook_loops(3)]) (simp_all add: r)
  have s: "steps (staged 6 7) (and_then (register_objects enabled f_services services_registry)
      (\<lambda>_. and_then (for_each after_load enabled) (\<lambda>_. returns enabled)))"
    by (rule staged_and_then[where lo' = 7 and hi' = 7, OF staged_register_objects[OF well_behaved_registries(5)]])
       (simp_all add: a services_registry_def)
  have b: "steps (staged 5 7) (and_then (register_objects enabled f_binaries binaries_registry)
      (\<lambda>_. and_then (register_objects enabled f_services services_registry)
      (\<lambda>_. and_then (for_each after_load enabled) (\<lambda>_. returns enabled))))"
    by (rule staged_and_then[where lo' = 6 and hi' = 7, OF staged_register_objects[OF well_behaved_registries(4)]])
       (simp_all add: s binaries_registry_def)
  have c: "steps (staged 4 7) (and_then (register_objects enabled
                 (\<lambda>f w. filter (\<lambda>a. \<not> a_disabled a w) (f_actions f w)) actions_registry)
      (\<lambda>_. and_then (register_objects enabled f_binaries binaries_registry)
      (\<lambda>_. and_then (register_objects enabled f_services services_registry)
      (\<lambda>_. and_then (for_each after_load enabled) (\<lambda>_. returns enabled)))))"
    by (rule staged_and_then[where lo' = 5 and hi' = 7, OF staged_register_objects[OF well_behaved_registries(3)]])
       (simp_all add: b actions_registry_def)
  have d: "steps (staged 3 7) (and_then (register_objects enabled f_commands commands_registry)
      (\<lambda>_. and_then (register_objects enabled
                 (\<lambda>f w. filter (\<lambda>a. \<not> a_disabled a w) (f_actions f w)) actions_registry)
      (\<lambda>_. and_then (register_objects enabled f_binaries binaries_registry)
      (\<lambda>_. and_then (register_objects enabled f_services services_registry)
      (\<lambda>_. and_then (for_each after_load enabled) (\<lambda>_. returns enabled))))))"
    by (rule staged_and_then[where lo' = 4 and hi' = 7, OF staged_register_objects[OF well_behaved_registries(2)]])
       (simp_all add: c commands_registry_def)
  show ?thesis
    unfolding register_enabled_def
    by (rule staged_and_then[where lo' = 3 and hi' = 7, OF staged_register_objects[OF well_behaved_registries(1)]])
       (simp_all add: d phases_registry_def)
qed

lemma staged_load_tail: "steps (staged 2 7) (load_tail fs)"
  by (rule stepsI) (simp add: load_tail_def stepsD[OF staged_register_enabled])

lemma staged_load:
  assumes "load_registered_features s = (r, s')"
  shows "staged 0 7 (\<not> isl r) s s'"
proof -
  have 1: "steps (staged 1 7) (and_then (for_each configure (features s)) (\<lambda>_. load_tail (features s)))"
    by (rule staged_and_then[where lo' = 2 and hi' = 7, OF staged_hook_loops(2)]) (simp_all add: staged_load_tail)
  have "steps (staged 0 7) (and_then (for_each before_load (features s)) (\<lambda>_.
     and_then (for_each configure (features s)) (\<lambda>_. load_tail (features s))))"
  proof (rule staged_and_then[where lo' = 1 and hi' = 7, OF staged_hook_loops(1)])
    show "\<And>a. steps (staged 1 7)
        (and_then (for_each configure (features s)) (\<lambda>_. load_tail (features s)))"
      using 1 .
  qed simp_all
  from stepsD[OF this] show ?thesis
    using assms unfolding load_unfold by blast
qed


lemma register_actions_effect:
  assumes "register_objects fl getter actions_registry s = (r, s')"
  shows "\<exists>k. s' = s\<lparr>actions := actions s @ take k (concat (map (\<lambda>f. getter f (world s)) fl)),
                     calls := calls s @ map (\<lambda>a. Registered Actions (a_name a))
                        (take k (concat (map (\<lambda>f. getter f (world s)) fl)))\<rparr> \<and>
             (r = Inr () \<longrightarrow> k = length (concat (map (\<lambda>f. getter f (world s)) fl)))"
  using register_objects_effect[OF well_behaved_registries(3) assms]
  by (simp add: actions_registry_def) blast

lemma register_phases_effect:
  assumes "register_objects fl getter phases_registry s = (r, s')"
  shows "\<exists>k. s' = s\<lparr>phases := phases s @ take k (concat (map (\<lambda>f. getter f (world s)) fl)),
                     calls := calls s @ map (Registered Phases)
                        (take k (concat (map (\<lambda>f. getter f (world s)) fl)))\<rparr> \<and>
             (r = Inr () \<longrightarrow> k = length (concat (map (\<lambda>f. getter f (world s)) fl)))"
  using register_objects_effect[OF well_behaved_registries(1) assms]
  by (simp add: phases_registry_def) blast

lemma register_commands_effect:
  assumes "register_objects fl getter commands_registry s = (r, s')"
  shows "\<exists>k. s' = s\<lparr>commands := commands s @ take k (concat (map (\<lambda>f. getter f (world s)) fl)),
                     calls := calls s @ map (Registered Commands)
                        (take k (concat (map (\<lambda>f. getter f (world s)) fl)))\<rparr> \<and>
             (r = Inr () \<longrightarrow> k = length (concat (map (\<lambda>f. getter f (world s)) fl)))"
  using register_objects_effect[OF well_behaved_registries(2) assms]
  by (simp add: commands_registry_def) blast

lemma register_binaries_effect:
  assumes "register_objects fl getter binaries_registry s = (r, s')"
  shows "\<exists>k. s' = s\<lparr>binaries := binaries s @ take k (concat (map (\<lambda>f. getter f (world s)) fl)),
                     calls := calls s @ map (Registered Binaries)
                        (take k (concat (map (\<lambda>f. getter f (world s)) fl)))\<rparr> \<and>
             (r = Inr () \<longrightarrow> k = length (concat (map (\<lambda>f. getter f (world s)) fl)))"
  using register_objects_effect[OF well_behaved_registries(4) assms]
  by (simp add: binaries_registry_def) blast

lemma register_services_effect:
  assumes "register_objects fl getter services_registry s = (r, s')"
  shows "\<exists>k. s' = s\<lparr>services := services s @ take k (concat (map (\<lambda>f. getter f (world s)) fl)),
                     calls := calls s @ map (Registered Services)
                        (take k (concat (map (\<lambda>f. getter f (world s)) fl)))\<rparr> \<and>
             (r = Inr () \<longrightarrow> k = length (concat (map (\<lambda>f. getter f (world s)) fl)))"
  using register_objects_effect[OF well_behaved_registries(5) assms]
  by (simp add: services_registry_def) blast

lemma quiet_register_objects:
  "steps quiet (register_objects fl getter phases_registry)"
  "steps quiet (register_objects fl getter commands_registry)"
  "steps quiet (register_objects fl getter binaries_registry)"
  "steps quiet (register_objects fl getter services_registry)"
proof -
  show "steps quiet (register_objects fl getter phases_registry)"
  proof (rule stepsI)
    fix s :: "'a state" and r s' assume "register_objects fl getter phases_registry s = (r, s')"
    from register_phases_effect[OF this]
    show "quiet (\<not> isl r) s s'"
      by (auto simp: quiet_def)
  qed
  show "steps quiet (register_objects fl getter commands_registry)"
  proof (rule stepsI)
    fix s :: "'a state" and r s' assume "register_objects fl getter commands_registry s = (r, s')"
    from register_commands_effect[OF this]
    show "quiet (\<not> isl r) s s'"
      by (auto simp: quiet_def)
  qed
  show "steps quiet (register_objects fl getter binaries_registry)"
  proof (rule stepsI)
    fix s :: "'a state" and r s' assume "register_objects fl getter binaries_registry s = (r, s')"
    from register_binaries_effect[OF this]
    show "quiet (\<not> isl r) s s'"
      by (auto simp: quiet_def)
  qed
  show "steps quiet (register_objects fl getter services_registry)"
  proof (rule stepsI)
    fix s :: "'a state" and r s' assume "register_objects fl getter services_registry s = (r, s')"
    from register_services_effect[OF this]
    show "quiet (\<not> isl r) s s'"
      by (auto simp: quiet_def)
  qed
qed

lemma enrolled_register_actions:
  "steps (enrolled_quietly (\<lambda>w. concat (map (\<lambda>f. getter f w) fl)))
     (register_objects fl getter actions_registry)"
proof (rule stepsI)
  fix s :: "'a state" and r s' assume "register_objects fl getter actions_registry s = (r, s')"
  from register_actions_effect[OF this]
  obtain k where k: "s' = s\<lparr>actions := actions s @ take k (concat (map (\<lambda>f. getter f (world s)) fl)),
                     calls := calls s @ map (\<lambda>a. Registered Actions (a_name a))
                        (take k (concat (map (\<lambda>f. getter f (world s)) fl)))\<rparr>"
    by blast
  have "world s' = world s"
    "actions s' = actions s @ take k (concat (map (\<lambda>f. getter f (world s)) fl))"
    by (simp_all add: k)
  then show "enrolled_quietly (\<lambda>w. concat (map (\<lambda>f. getter f w) fl)) (\<not> isl r) s s'"
    unfolding enrolled_quietly_def enrolled_def by blast
qed

lemma same_actions_after_load: "steps same_actions (for_each after_load fs)"
proof (rule stepsI)
  fix s :: "'a state" and r s' assume "for_each after_load fs s = (r, s')"
  from after_load_loop[OF this] show "same_actions (\<not> isl r) s s'"
    by (auto simp: same_actions_def)
qed

lemma same_actions_hooks:
  "steps quiet (returns x)"
  "for_each before_load fs s = (r, s') \<Longrightarrow> actions s' = actions s"
  "for_each configure fs s = (r, s') \<Longrightarrow> actions s' = actions s"
proof -
  show "steps quiet (returns x)"
    by (rule steps_returns) (simp add: quiet_def)
  show "for_each before_load fs s = (r, s') \<Longrightarrow> actions s' = actions s"
    using before_load_loop[of fs s r s'] by auto
  show "for_each configure fs s = (r, s') \<Longrightarrow> actions s' = actions s"
    using configure_loop[of fs s r s'] by auto
qed

lemma enrolled_register_enabled:
  fixes enabled :: "'w feature list"
  defines "objs \<equiv> (\<lambda>w. concat (map (\<lambda>f. filter (\<lambda>a. \<not> a_disabled a w) (f_actions f w)) enabled))"
  shows "steps (enrolled objs) (register_enabled enabled)"
proof -
  have a: "steps same_actions (and_then (for_each after_load enabled) (\<lambda>_. returns enabled))"
    by (rule steps_and_then[where ?R1.0 = same_actions and ?R2.0 = quiet,
          OF same_actions_after_load same_actions_hooks(1)])
       (auto simp: same_actions_def quiet_def)
  have s: "steps same_actions (and_then (register_objects enabled f_services services_registry)
      (\<lambda>_. and_then (for_each after_load enabled) (\<lambda>_. returns enabled)))"
    by (rule steps_and_then[where ?R1.0 = quiet and ?R2.0 = same_actions,
          OF quiet_register_objects(4)])
       (auto simp: a same_actions_def quiet_def)
  have b: "steps same_actions (and_then (register_objects enabled f_binaries binaries_registry)
      (\<lambda>_. and_then (register_objects enabled f_services services_registry)
      (\<lambda>_. and_then (for_each after_load enabled) (\<lambda>_. returns enabled))))"
    by (rule steps_and_then[where ?R1.0 = quiet and ?R2.0 = same_actions,
          OF quiet_register_objects(3)])
       (auto simp: s same_actions_def quiet_def)
  have c: "steps (enrolled objs) (and_then (register_objects enabled
                 (\<lambda>f w. filter (\<lambda>a. \<not> a_disabled a w) (f_actions f w)) actions_registry)
      (\<lambda>_. and_then (register_objects enabled f_binaries binaries_registry)
      (\<lambda>_. and_then (register_objects enabled f_services services_registry)
      (\<lambda>_. and_then (for_each after_load enabled) (\<lambda>_. returns enabled)))))"
    unfolding objs_def
    by (rule steps_and_then[where ?R2.0 = same_actions, OF enrolled_register_actions])
       (auto simp: b same_actions_def enrolled_quietly_def enrolled_def)
  have d: "steps (enrolled objs) (and_then (register_objects enabled f_commands commands_registry)
      (\<lambda>_. and_then (register_objects enabled
                 (\<lambda>f w. filter (\<lambda>a. \<not> a_disabled a w) (f_actions f w)) actions_registry)
      (\<lambda>_. and_then (register_objects enabled f_binaries binaries_registry)
      (\<lambda>_. and_then (register_objects enabled f_services services_registry)
      (\<lambda>_. and_then (for_each after_load enabled) (\<lambda>_. returns enabled))))))"
    by (rule steps_and_then[where ?R1.0 = quiet and ?R2.0 = "enrolled objs",
          OF quiet_register_objects(2)])
       (auto simp: c quiet_def enrolled_def intro: exI[of _ 0])
  show ?thesis
    unfolding register_enabled_def
    by (rule steps_and_then[where ?R1.0 = quiet and ?R2.0 = "enrolled objs",
          OF quiet_register_objects(1)])
       (auto simp: d quiet_def enrolled_def intro: exI[of _ 0])
qed


lemma register_enabled_success:
  fixes en :: "'w feature list"
  assumes "register_enabled en s2 = (Inr enabled, s')"
  shows "enabled = en \<and>
    calls s' = calls s2 @
      map (Registered Phases) (concat (map (\<lambda>f. f_phases f (world s2)) en)) @
      map (Registered Commands) (concat (map (\<lambda>f. f_commands f (world s2)) en)) @
      map (\<lambda>a. Registered Actions (a_name a))
        (concat (map (\<lambda>f. filter (\<lambda>a. \<not> a_disabled a (world s2)) (f_actions f (world s2))) en)) @
      map (Registered Binaries) (concat (map (\<lambda>f. f_binaries f (world s2)) en)) @
      map (Registered Services) (concat (map (\<lambda>f. f_services f (world s2)) en)) @
      map (\<lambda>f. AfterLoad (f_name f)) en \<and>
    actions s' = actions s2 @
      concat (map (\<lambda>f. filter (\<lambda>a. \<not> a_disabled a (world s2)) (f_actions f (world s2))) en)"
proof -
  from assms obtain s3 s4 s5 s6 s7 s8 where
    p: "register_objects en f_phases phases_registry s2 = (Inr (), s3)" and
    c: "register_objects en f_commands commands_registry s3 = (Inr (), s4)" and
    a: "register_objects en (\<lambda>f w. filter (\<lambda>a. \<not> a_disabled a w) (f_actions f w))
          actions_registry s4 = (Inr (), s5)" and
    b: "register_objects en f_binaries binaries_registry s5 = (Inr (), s6)" and
    v: "register_objects en f_services services_registry s6 = (Inr (), s7)" and
    l: "for_each after_load en s7 = (Inr (), s8)" and
    r: "returns en s8 = (Inr enabled, s')"
    unfolding register_enabled_def and_then_Inr by auto
  from register_phases_effect[OF p] have s3:
    "s3 = s2\<lparr>phases := phases s2 @ concat (map (\<lambda>f. f_phases f (world s2)) en),
            calls := calls s2 @ map (Registered Phases) (concat (map (\<lambda>f. f_phases f (world s2)) en))\<rparr>"
    by auto
  then have w3: "world s3 = world s2" by simp
  from register_commands_effect[OF c] have s4:
    "s4 = s3\<lparr>commands := commands s3 @ concat (map (\<lambda>f. f_commands f (world s2)) en),
            calls := calls s3 @ map (Registered Commands) (concat (map (\<lambda>f. f_commands f (world s2)) en))\<rparr>"
    unfolding w3 by auto
  then have w4: "world s4 = world s2" using w3 by simp
  from register_actions_effect[OF a] have s5:
    "s5 = s4\<lparr>actions := actions s4 @
              concat (map (\<lambda>f. filter (\<lambda>a. \<not> a_disabled a (world s2)) (f_actions f (world s2))) en),
            calls := calls s4 @ map (\<lambda>a. Registered Actions (a_name a))
              (concat (map (\<lambda>f. filter (\<lambda>a. \<not> a_disabled a (world s2)) (f_actions f (world s2))) en))\<rparr>"
    unfolding w4 by auto
  then have w5: "world s5 = world s2" using w4 by simp
  from register_binaries_effect[OF b] have s6:
    "s6 = s5\<lparr>binaries := binaries s5 @ concat (map (\<lambda>f. f_binaries f (world s2)) en),
            calls := calls s5 @ map (Registered Binaries) (concat (map (\<lambda>f. f_binaries f (world s2)) en))\<rparr>"
    unfolding w5 by auto
  then have w6: "world s6 = world s2" using w5 by simp
  from register_services_effect[OF v] have s7:
    "s7 = s6\<lparr>services := services s6 @ concat (map (\<lambda>f. f_services f (world s2)) en),
            calls := calls s6 @ map (Registered Services) (concat (map (\<lambda>f. f_services f (world s2)) en))\<rparr>"
    unfolding w6 by auto
  from after_load_loop[OF l] obtain w where s8:
    "s8 = s7\<lparr>calls := calls s7 @ map (\<lambda>f. AfterLoad (f_name f)) en, world := w\<rparr>"
    by auto
  have e: "enabled = en" "s' = s8" using r by (simp_all add: returns_def)
  have cl: "calls s' = calls s2 @
      map (Registered Phases) (concat (map (\<lambda>f. f_phases f (world s2)) en)) @
      map (Registered Commands) (concat (map (\<lambda>f. f_commands f (world s2)) en)) @
      map (\<lambda>a. Registered Actions (a_name a))
        (concat (map (\<lambda>f. filter (\<lambda>a. \<not> a_disabled a (world s2)) (f_actions f (world s2))) en)) @
      map (Registered Binaries) (concat (map (\<lambda>f. f_binaries f (world s2)) en)) @
      map (Registered Services) (concat (map (\<lambda>f. f_services f (world s2)) en)) @
      map (\<lambda>f. AfterLoad (f_name f)) en"
    unfolding e(2) s8 by (simp add: s7 s6 s5 s4 s3)
  have ac: "actions s' = actions s2 @
      concat (map (\<lambda>f. filter (\<lambda>a. \<not> a_disabled a (world s2)) (f_actions f (world s2))) en)"
    unfolding e(2) s8 by (simp add: s7 s6 s5 s4 s3)
  show ?thesis using e(1) cl ac by blast
qed

lemma load_success:
  assumes "load_registered_features s = (Inr enabled, s')"
  shows "enabled = filter (\<lambda>f. \<not> f_disabled f (configured_world s)) (features s) \<and>
    calls s' = calls s @
      map (\<lambda>f. BeforeLoad (f_name f)) (features s) @
      map (\<lambda>f. Configure (f_name f)) (features s) @
      map (Registered Phases) (concat (map (\<lambda>f. f_phases f (configured_world s)) enabled)) @
      map (Registered Commands) (concat (map (\<lambda>f. f_commands f (configured_world s)) enabled)) @
      map (\<lambda>a. Registered Actions (a_name a))
        (concat (map (\<lambda>f. filter (\<lambda>a. \<not> a_disabled a (configured_world s))
                              (f_actions f (configured_world s))) enabled)) @
      map (Registered Binaries) (concat (map (\<lambda>f. f_binaries f (configured_world s)) enabled)) @
      map (Registered Services) (concat (map (\<lambda>f. f_services f (configured_world s)) enabled)) @
      map (\<lambda>f. AfterLoad (f_name f)) enabled \<and>
    actions s' = actions s @
      concat (map (\<lambda>f. filter (\<lambda>a. \<not> a_disabled a (configured_world s))
                            (f_actions f (configured_world s))) enabled)"
proof -
  from assms obtain s1 s2 where
    b: "for_each before_load (features s) s = (Inr (), s1)" and
    c: "for_each configure (features s) s1 = (Inr (), s2)" and
    t: "load_tail (features s) s2 = (Inr enabled, s')"
    unfolding load_unfold and_then_Inr by auto
  from before_load_loop[OF b] obtain w1 where s1:
    "s1 = s\<lparr>calls := calls s @ map (\<lambda>f. BeforeLoad (f_name f)) (features s), world := w1\<rparr>"
    by auto
  from configure_loop[OF c] obtain w2 where s2:
    "s2 = s1\<lparr>calls := calls s1 @ map (\<lambda>f. Configure (f_name f)) (features s), world := w2\<rparr>"
    by auto
  have w: "configured_world s = world s2"
    by (simp add: configured_world_def b c)
  have calls2: "calls s2 = calls s @ map (\<lambda>f. BeforeLoad (f_name f)) (features s) @
      map (\<lambda>f. Configure (f_name f)) (features s)"
    by (simp add: s2 s1)
  have actions2: "actions s2 = actions s"
    by (simp add: s2 s1)
  from t have "register_enabled (filter (\<lambda>f. \<not> f_disabled f (world s2)) (features s)) s2 =
      (Inr enabled, s')"
    by (simp add: load_tail_def)
  from register_enabled_success[OF this] show ?thesis
    unfolding w calls2 actions2 by simp
qed


lemma and_then_cases:
  assumes "and_then m k s = (r, s')"
  shows "(\<exists>e. m s = (Inl e, s') \<and> r = Inl e) \<or> (\<exists>a s1. m s = (Inr a, s1) \<and> k a s1 = (r, s'))"
proof -
  obtain r1 s1 where m: "m s = (r1, s1)" by (cases "m s")
  show ?thesis
  proof (cases r1)
    case (Inl e)
    then show ?thesis using assms m by (simp add: and_then_def)
  next
    case (Inr a)
    then show ?thesis using assms m by (simp add: and_then_def)
  qed
qed


section \<open>Binding actions to the event bus: the claims\<close>

text \<open>
  C1.  \<open>register_actions_in_event_bus\<close> only appends to the subscriptions of the bus.  For
  every event name, the handlers it binds under that name are in ascending \<open>order\<close> of their
  actions (also when a malformed binding ends the registration early).  When it returns,
  the handlers of the actions of any one \<open>order\<close> are exactly those that binding these
  actions in their registration order yields: ties keep the registration order.
\<close>

theorem register_actions_in_event_bus_order:
  assumes "register_actions_in_event_bus fail_fast s = (r, s')"
  shows "\<exists>new.
           bus s' = bus s @ new \<and>
           sorted (map (\<lambda>h. a_order (r_action h)) (bus_handlers e new)) \<and>
           (r = Inr () \<longrightarrow>
              (\<forall>k. filter (\<lambda>h. a_order (r_action h) = k) (bus_handlers e new) =
                     bus_handlers e
                       (bound_by fail_fast (filter (\<lambda>a. a_order a = k) (actions s)) s)))"
proof -
  let ?sorted = "sort_key a_order (actions s)"
  let ?new = "snd (appended action_result (action_added fail_fast) ?sorted)"
  have r: "r = fst (appended action_result (action_added fail_fast) ?sorted)"
    and s': "s' = s\<lparr>bus := bus s @ ?new\<rparr>"
    using assms register_pure[of fail_fast s] by simp_all
  have 1: "bus s' = bus s @ ?new"
    using s' by simp
  have "sorted (map (\<lambda>p. a_order (r_action (snd p))) ?new)"
    by (rule appended_sorted[where f = a_order]) (simp_all add: action_added_action)
  then have "sorted (map (\<lambda>p. a_order (r_action (snd p))) (filter (\<lambda>(n, h). n = e) ?new))"
    by (rule sorted_filter)
  then have 2: "sorted (map (\<lambda>h. a_order (r_action h)) (bus_handlers e ?new))"
    by (simp add: bus_handlers_def comp_def)
  have 3: "\<forall>k. filter (\<lambda>h. a_order (r_action h) = k) (bus_handlers e ?new) =
                     bus_handlers e
                       (bound_by fail_fast (filter (\<lambda>a. a_order a = k) (actions s)) s)"
    if ok: "r = Inr ()"
  proof
    fix k
    have all: "\<forall>a \<in> set (actions s). action_result a = Inr ()"
      using ok r appended_all[of action_result "action_added fail_fast" ?sorted] by simp
    then have new: "?new = concat (map (action_added fail_fast) ?sorted)"
      by (intro appended_complete) simp
    have "bound_by fail_fast (filter (\<lambda>a. a_order a = k) (actions s)) s =
        concat (map (action_added fail_fast) (filter (\<lambda>a. a_order a = k) (actions s)))"
      unfolding bound_by_pure using all by (intro appended_complete) simp
    moreover have "filter (\<lambda>a. a_order a = k) ?sorted = filter (\<lambda>a. a_order a = k) (actions s)"
      by (rule sort_key_stable)
    ultimately show "filter (\<lambda>h. a_order (r_action h) = k) (bus_handlers e ?new) =
        bus_handlers e (bound_by fail_fast (filter (\<lambda>a. a_order a = k) (actions s)) s)"
      using new filter_handlers[of k e fail_fast ?sorted] by simp
  qed
  show ?thesis using 1 2 3 by blast
qed


theorem register_actions_in_event_bus_order_witness:
  "register_actions_in_event_bus False loaded_state =
     (Inr (), snd (register_actions_in_event_bus False loaded_state)) \<and>
   (\<exists>new. bus (snd (register_actions_in_event_bus False loaded_state)) =
             bus loaded_state @ new \<and>
           sorted (map (\<lambda>h. a_order (r_action h)) (bus_handlers ''phase:info'' new))) \<and>
   map (\<lambda>h. a_name (r_action h))
     (bus_handlers ''phase:info'' (bus (snd (register_actions_in_event_bus False loaded_state)))) =
     [''docker:emit'', ''core:list-features'', ''shell:activate'', ''jinja:render'']"
proof -
  let ?run = "register_actions_in_event_bus False loaded_state"
  have "fst ?run = Inr ()" by code_simp
  then have h: "?run = (Inr (), snd ?run)" by (metis prod.collapse)
  have names: "map (\<lambda>h. a_name (r_action h)) (bus_handlers ''phase:info'' (bus (snd ?run))) =
     [''docker:emit'', ''core:list-features'', ''shell:activate'', ''jinja:render'']"
    by code_simp
  from register_actions_in_event_bus_order[OF h, of "''phase:info''"]
  have "\<exists>new. bus (snd ?run) = bus loaded_state @ new \<and>
           sorted (map (\<lambda>h. a_order (r_action h)) (bus_handlers ''phase:info'' new))"
    by blast
  then show ?thesis using h names by blast
qed


text \<open>
  C7.  For an action whose \<open>event_bindings\<close> is the single string \<open>E\<close>, and for the same
  action with \<open>event_bindings\<close> the one-element list \<open>[E]\<close>, binding subscribes exactly one
  runner under \<open>E\<close>, with the default method and the given fail-fast policy.  Put at the same
  place of the action registry, the two make \<open>register_actions_in_event_bus\<close> end alike
  and leave the same subscriptions at the same positions, up to the \<open>event_bindings\<close>
  attribute of the action the runner holds.
\<close>

theorem single_string_binds_like_singleton_list:
  assumes "a_event_bindings a = Single E"
  shows "bind_action fail_fast a s =
           (Inr (), s\<lparr>bus := bus s @
              [(E, action_event_binding_runner_factory a E None fail_fast)]\<rparr>) \<and>
         bind_action fail_fast (a\<lparr>a_event_bindings := Several [EventName E]\<rparr>) s =
           (Inr (), s\<lparr>bus := bus s @
              [(E, action_event_binding_runner_factory
                     (a\<lparr>a_event_bindings := Several [EventName E]\<rparr>) E None fail_fast)]\<rparr>) \<and>
         fst (register_actions_in_event_bus fail_fast (s\<lparr>actions := pre @ a # post\<rparr>)) =
         fst (register_actions_in_event_bus fail_fast
                (s\<lparr>actions := pre @ a\<lparr>a_event_bindings := Several [EventName E]\<rparr> # post\<rparr>)) \<and>
         map forget_bindings
           (bus (snd (register_actions_in_event_bus fail_fast (s\<lparr>actions := pre @ a # post\<rparr>)))) =
         map forget_bindings
           (bus (snd (register_actions_in_event_bus fail_fast
                (s\<lparr>actions := pre @ a\<lparr>a_event_bindings := Several [EventName E]\<rparr> # post\<rparr>))))"
proof -
  let ?a' = "a\<lparr>a_event_bindings := Several [EventName E]\<rparr>"
  define R where "R = (\<lambda>x y. y = x \<or> (x = a \<and> y = ?a'))"
  have res: "action_result a = Inr ()" "action_result ?a' = Inr ()"
    using assms by (simp_all add: action_result_def)
  have add: "action_added fail_fast a = [(E, action_event_binding_runner_factory a E None fail_fast)]"
    "action_added fail_fast ?a' =
       [(E, action_event_binding_runner_factory ?a' E None fail_fast)]"
    using assms by (simp_all add: action_added_def)
  have 1: "bind_action fail_fast a s =
           (Inr (), s\<lparr>bus := bus s @ [(E, action_event_binding_runner_factory a E None fail_fast)]\<rparr>)"
    using bind_action_pure[of fail_fast a s] res add by simp
  have 2: "bind_action fail_fast ?a' s =
           (Inr (), s\<lparr>bus := bus s @
              [(E, action_event_binding_runner_factory ?a' E None fail_fast)]\<rparr>)"
    using bind_action_pure[of fail_fast ?a' s] res add by simp
  have same: "map forget_bindings (action_added fail_fast a) =
      map forget_bindings (action_added fail_fast ?a')"
    by (simp add: add forget_bindings_def action_event_binding_runner_factory_def)
  have rel: "\<And>x y. R x y \<Longrightarrow> action_result x = action_result y \<and>
      map forget_bindings (action_added fail_fast x) = map forget_bindings (action_added fail_fast y)"
    using res same by (auto simp: R_def)
  have ord: "\<And>x y. R x y \<Longrightarrow> a_order x = a_order y"
    by (auto simp: R_def)
  have refl: "list_all2 R pre pre" "list_all2 R post post"
    by (simp_all add: list_all2_refl R_def)
  have "R a ?a'" by (simp add: R_def)
  then have "list_all2 R (a # post) (?a' # post)"
    using refl(2) by simp
  then have "list_all2 R (pre @ a # post) (pre @ ?a' # post)"
    using refl(1) by (rule list_all2_appendI[rotated])
  then have sorted_rel:
    "list_all2 R (sort_key a_order (pre @ a # post)) (sort_key a_order (pre @ ?a' # post))"
    using sort_key_rel[of R a_order] ord by blast
  have both: "fst (appended action_result (action_added fail_fast) (sort_key a_order (pre @ a # post))) =
      fst (appended action_result (action_added fail_fast) (sort_key a_order (pre @ ?a' # post)))"
    "map forget_bindings (snd (appended action_result (action_added fail_fast) (sort_key a_order (pre @ a # post)))) =
      map forget_bindings (snd (appended action_result (action_added fail_fast) (sort_key a_order (pre @ ?a' # post))))"
    using appended_rel[of R action_result action_result forget_bindings
      "action_added fail_fast" "action_added fail_fast", OF rel sorted_rel]
    by simp_all
  have 3: "fst (register_actions_in_event_bus fail_fast (s\<lparr>actions := pre @ a # post\<rparr>)) =
         fst (register_actions_in_event_bus fail_fast (s\<lparr>actions := pre @ ?a' # post\<rparr>))"
    using both(1) by (simp add: register_pure)
  have 4: "map forget_bindings
           (bus (snd (register_actions_in_event_bus fail_fast (s\<lparr>actions := pre @ a # post\<rparr>)))) =
         map forget_bindings
           (bus (snd (register_actions_in_event_bus fail_fast (s\<lparr>actions := pre @ ?a' # post\<rparr>))))"
    using both(2) by (simp add: register_pure)
  show ?thesis using 1 2 3 4 by blast
qed


theorem single_string_binds_like_singleton_list_witness:
  "a_event_bindings list_features_action = Single ''phase:info'' \<and>
   map forget_bindings
     (bus (snd (register_actions_in_event_bus False
        (demo_state\<lparr>actions := [emit_action, list_features_action, render_action]\<rparr>)))) =
   map forget_bindings
     (bus (snd (register_actions_in_event_bus False
        (demo_state\<lparr>actions :=
           [emit_action,
            list_features_action\<lparr>a_event_bindings := Several [EventName ''phase:info'']\<rparr>,
            render_action]\<rparr>)))) \<and>
   map (\<lambda>p. (fst p, a_name (r_action (snd p)), r_method_name (snd p), r_fail_fast (snd p)))
     (bus (snd (register_actions_in_event_bus False
        (demo_state\<lparr>actions :=
           [emit_action,
            list_features_action\<lparr>a_event_bindings := Several [EventName ''phase:info'']\<rparr>,
            render_action]\<rparr>)))) =
     [(''phase:info'', ''docker:emit'', None, False),
      (''file:generated'', ''docker:emit'', Some ''apply'', False),
      (''phase:info'', ''core:list-features'', None, False),
      (''phase:info'', ''jinja:render'', None, False)]"
proof -
  have h: "a_event_bindings list_features_action = Single ''phase:info''"
    by (simp add: list_features_action_def demo_action_def)
  have v: "map (\<lambda>p. (fst p, a_name (r_action (snd p)), r_method_name (snd p), r_fail_fast (snd p)))
     (bus (snd (register_actions_in_event_bus False
        (demo_state\<lparr>actions :=
           [emit_action,
            list_features_action\<lparr>a_event_bindings := Several [EventName ''phase:info'']\<rparr>,
            render_action]\<rparr>)))) =
     [(''phase:info'', ''docker:emit'', None, False),
      (''file:generated'', ''docker:emit'', Some ''apply'', False),
      (''phase:info'', ''core:list-features'', None, False),
      (''phase:info'', ''jinja:render'', None, False)]"
    by code_simp
  from single_string_binds_like_singleton_list[OF h, of False demo_state "[emit_action]"
      "[render_action]"]
  show ?thesis using h v by simp
qed

section \<open>Feature lifecycle: the claims\<close>

text \<open>
  C2.  The calls recorded by \<open>load_registered_features\<close> are in the order of its steps,
  whether it returns or a step raises: every \<open>before_load\<close>, then every \<open>configure\<close>, then
  the registrations of phases, commands, actions, binaries and services, then every
  \<open>after_load\<close>.  When it returns, the calls are exactly: \<open>before_load\<close> on every registered
  feature, \<open>configure\<close> on every registered feature, the registration of the phases, the
  commands, the non-disabled actions, the binaries and the services of the enabled features,
  and \<open>after_load\<close> on every enabled feature; the enabled features are those whose
  \<open>disabled\<close> is false once every feature has been configured.
\<close>

theorem load_registered_features_breadth_first:
  assumes "load_registered_features s = (r, s')"
  shows "\<exists>new.
           calls s' = calls s @ new \<and> sorted (map stage new) \<and>
           (\<forall>enabled. r = Inr enabled \<longrightarrow>
              enabled = filter (\<lambda>f. \<not> f_disabled f (configured_world s)) (features s) \<and>
              new =
                map (\<lambda>f. BeforeLoad (f_name f)) (features s) @
                map (\<lambda>f. Configure (f_name f)) (features s) @
                map (Registered Phases)
                  (concat (map (\<lambda>f. f_phases f (configured_world s)) enabled)) @
                map (Registered Commands)
                  (concat (map (\<lambda>f. f_commands f (configured_world s)) enabled)) @
                map (\<lambda>a. Registered Actions (a_name a))
                  (concat (map (\<lambda>f. filter (\<lambda>a. \<not> a_disabled a (configured_world s))
                                        (f_actions f (configured_world s))) enabled)) @
                map (Registered Binaries)
                  (concat (map (\<lambda>f. f_binaries f (configured_world s)) enabled)) @
                map (Registered Services)
                  (concat (map (\<lambda>f. f_services f (configured_world s)) enabled)) @
                map (\<lambda>f. AfterLoad (f_name f)) enabled)"
proof -
  from staged_load[OF assms] obtain new where
    new: "calls s' = calls s @ new" "sorted (map stage new)"
    unfolding staged_def by blast
  have "\<forall>enabled. r = Inr enabled \<longrightarrow>
              enabled = filter (\<lambda>f. \<not> f_disabled f (configured_world s)) (features s) \<and>
              new =
                map (\<lambda>f. BeforeLoad (f_name f)) (features s) @
                map (\<lambda>f. Configure (f_name f)) (features s) @
                map (Registered Phases)
                  (concat (map (\<lambda>f. f_phases f (configured_world s)) enabled)) @
                map (Registered Commands)
                  (concat (map (\<lambda>f. f_commands f (configured_world s)) enabled)) @
                map (\<lambda>a. Registered Actions (a_name a))
                  (concat (map (\<lambda>f. filter (\<lambda>a. \<not> a_disabled a (configured_world s))
                                        (f_actions f (configured_world s))) enabled)) @
                map (Registered Binaries)
                  (concat (map (\<lambda>f. f_binaries f (configured_world s)) enabled)) @
                map (Registered Services)
                  (concat (map (\<lambda>f. f_services f (configured_world s)) enabled)) @
                map (\<lambda>f. AfterLoad (f_name f)) enabled"
  proof (intro allI impI)
    fix enabled assume "r = Inr enabled"
    then have "load_registered_features s = (Inr enabled, s')" using assms by simp
    from load_success[OF this] show "enabled = filter (\<lambda>f. \<not> f_disabled f (configured_world s)) (features s) \<and>
              new =
                map (\<lambda>f. BeforeLoad (f_name f)) (features s) @
                map (\<lambda>f. Configure (f_name f)) (features s) @
                map (Registered Phases)
                  (concat (map (\<lambda>f. f_phases f (configured_world s)) enabled)) @
                map (Registered Commands)
                  (concat (map (\<lambda>f. f_commands f (configured_world s)) enabled)) @
                map (\<lambda>a. Registered Actions (a_name a))
                  (concat (map (\<lambda>f. filter (\<lambda>a. \<not> a_disabled a (configured_world s))
                                        (f_actions f (configured_world s))) enabled)) @
                map (Registered Binaries)
                  (concat (map (\<lambda>f. f_binaries f (configured_world s)) enabled)) @
                map (Registered Services)
                  (concat (map (\<lambda>f. f_services f (configured_world s)) enabled)) @
                map (\<lambda>f. AfterLoad (f_name f)) enabled"
      using new(1) by simp
  qed
  then show ?thesis using new by blast
qed

theorem load_registered_features_breadth_first_witness:
  "load_registered_features registered_state =
     (fst (load_registered_features registered_state),
      snd (load_registered_features registered_state)) \<and>
   \<not> isl (fst (load_registered_features registered_state)) \<and>
   (\<exists>new. calls (snd (load_registered_features registered_state)) =
            calls registered_state @ new \<and> sorted (map stage new)) \<and>
   calls (snd (load_registered_features registered_state)) =
     [BeforeLoad ''core'', BeforeLoad ''docker'', BeforeLoad ''jinja'', BeforeLoad ''shell'',
      Configure ''core'', Configure ''docker'', Configure ''jinja'', Configure ''shell'',
      Registered Phases ''info'', Registered Commands ''info'',
      Registered Actions ''core:list-features'', Registered Actions ''docker:emit'',
      Registered Actions ''shell:activate'',
      AfterLoad ''core'', AfterLoad ''docker'', AfterLoad ''shell'']"
proof -
  let ?run = "load_registered_features registered_state"
  have h: "?run = (fst ?run, snd ?run)" by simp
  have ok: "\<not> isl (fst ?run)" by code_simp
  have c: "calls (snd ?run) =
     [BeforeLoad ''core'', BeforeLoad ''docker'', BeforeLoad ''jinja'', BeforeLoad ''shell'',
      Configure ''core'', Configure ''docker'', Configure ''jinja'', Configure ''shell'',
      Registered Phases ''info'', Registered Commands ''info'',
      Registered Actions ''core:list-features'', Registered Actions ''docker:emit'',
      Registered Actions ''shell:activate'',
      AfterLoad ''core'', AfterLoad ''docker'', AfterLoad ''shell'']"
    by code_simp
  from load_registered_features_breadth_first[OF h]
  have "\<exists>new. calls (snd ?run) = calls registered_state @ new \<and> sorted (map stage new)"
    by blast
  then show ?thesis using h ok c by blast
qed


text \<open>
  C6.  \<open>load_registered_features\<close> only appends to the action registry, and every action it
  appends is declared by a registered feature that is enabled and is itself not disabled,
  both read once every feature has been configured; this holds whether it returns or a
  step raises.  When it returns, the appended actions are exactly the non-disabled actions
  of the enabled features, in feature order.
\<close>

theorem only_enabled_actions_are_registered:
  assumes "load_registered_features s = (r, s')"
  shows "\<exists>new.
           actions s' = actions s @ new \<and>
           (\<forall>a \<in> set new.
              \<not> a_disabled a (configured_world s) \<and>
              (\<exists>f \<in> set (features s).
                 \<not> f_disabled f (configured_world s) \<and>
                 a \<in> set (f_actions f (configured_world s)))) \<and>
           (\<forall>enabled. r = Inr enabled \<longrightarrow>
              new = concat (map (\<lambda>f. filter (\<lambda>a. \<not> a_disabled a (configured_world s))
                                          (f_actions f (configured_world s)))
                              (filter (\<lambda>f. \<not> f_disabled f (configured_world s)) (features s))))"
proof -
  let ?w = "configured_world s"
  let ?en = "filter (\<lambda>f. \<not> f_disabled f ?w) (features s)"
  let ?objs = "concat (map (\<lambda>f. filter (\<lambda>a. \<not> a_disabled a ?w) (f_actions f ?w)) ?en)"
  have prefix: "\<exists>k. actions s' = actions s @ take k ?objs"
  proof -
    from assms have run: "and_then (for_each before_load (features s)) (\<lambda>_.
        and_then (for_each configure (features s)) (\<lambda>_. load_tail (features s))) s = (r, s')"
      by (simp add: load_unfold)
    from and_then_cases[OF run] show ?thesis
    proof (elim disjE exE conjE)
      fix e assume "for_each before_load (features s) s = (Inl e, s')"
      then have "actions s' = actions s" by (rule same_actions_hooks(2))
      then show ?thesis by (intro exI[of _ 0]) simp
    next
      fix u s1 assume b: "for_each before_load (features s) s = (Inr u, s1)"
        and rest: "and_then (for_each configure (features s)) (\<lambda>_. load_tail (features s)) s1 = (r, s')"
      have a1: "actions s1 = actions s" using b by (rule same_actions_hooks(2))
      from and_then_cases[OF rest] show ?thesis
      proof (elim disjE exE conjE)
        fix e assume "for_each configure (features s) s1 = (Inl e, s')"
        then have "actions s' = actions s1" by (rule same_actions_hooks(3))
        then show ?thesis using a1 by (intro exI[of _ 0]) simp
      next
        fix v s2 assume c: "for_each configure (features s) s1 = (Inr v, s2)"
          and t: "load_tail (features s) s2 = (r, s')"
        have a2: "actions s2 = actions s" using c a1 same_actions_hooks(3) by metis
        have w: "?w = world s2"
          by (simp add: configured_world_def b c)
        from t have "register_enabled (filter (\<lambda>f. \<not> f_disabled f (world s2)) (features s)) s2 = (r, s')"
          by (simp add: load_tail_def)
        from stepsD[OF enrolled_register_enabled this]
        show ?thesis unfolding enrolled_def w a2 by simp
      qed
    qed
  qed
  then obtain k where k: "actions s' = actions s @ take k ?objs" by blast
  have "\<forall>a \<in> set ?objs. \<not> a_disabled a ?w \<and>
      (\<exists>f \<in> set (features s). \<not> f_disabled f ?w \<and> a \<in> set (f_actions f ?w))"
    by auto
  moreover have "set (take k ?objs) \<subseteq> set ?objs" by (rule set_take_subset)
  ultimately have ok: "\<forall>a \<in> set (take k ?objs). \<not> a_disabled a ?w \<and>
      (\<exists>f \<in> set (features s). \<not> f_disabled f ?w \<and> a \<in> set (f_actions f ?w))"
    by blast
  have full: "\<forall>enabled. r = Inr enabled \<longrightarrow> take k ?objs = ?objs"
  proof (intro allI impI)
    fix enabled assume "r = Inr enabled"
    then have "load_registered_features s = (Inr enabled, s')" using assms by simp
    from load_success[OF this] have "enabled = ?en" "actions s' = actions s @
      concat (map (\<lambda>f. filter (\<lambda>a. \<not> a_disabled a ?w) (f_actions f ?w)) enabled)"
      by simp_all
    then show "take k ?objs = ?objs" using k by simp
  qed
  show ?thesis using k ok full by blast
qed

theorem only_enabled_actions_are_registered_witness:
  "load_registered_features registered_state =
     (fst (load_registered_features registered_state),
      snd (load_registered_features registered_state)) \<and>
   \<not> isl (fst (load_registered_features registered_state)) \<and>
   configured_world registered_state = [''shell:deactivate'', ''jinja''] \<and>
   (\<exists>new. actions (snd (load_registered_features registered_state)) =
            actions registered_state @ new \<and>
          (\<forall>a \<in> set new. \<not> a_disabled a (configured_world registered_state))) \<and>
   map a_name (actions (snd (load_registered_features registered_state))) =
     [''core:list-features'', ''docker:emit'', ''shell:activate'']"
proof -
  let ?run = "load_registered_features registered_state"
  have h: "?run = (fst ?run, snd ?run)" by simp
  have ok: "\<not> isl (fst ?run)" by code_simp
  have w: "configured_world registered_state = [''shell:deactivate'', ''jinja'']"
    by code_simp
  have n: "map a_name (actions (snd ?run)) =
     [''core:list-features'', ''docker:emit'', ''shell:activate'']"
    by code_simp
  from only_enabled_actions_are_registered[OF h]
  have "\<exists>new. actions (snd ?run) = actions registered_state @ new \<and>
          (\<forall>a \<in> set new. \<not> a_disabled a (configured_world registered_state))"
    by blast
  then show ?thesis using h ok w n by blast
qed

section \<open>The restart signal and the exit status\<close>

text \<open>
  C4.  When the first execution of the selected command raises \<open>RestartWithArgs\<close>,
  \<open>handle_command_line\<close> stores the restart arguments in \<open>config.args\<close> and its outcome is
  the outcome of one further execution of the command from the state the first one left.
  In particular a \<open>RestartWithArgs\<close> raised by that second execution is the outcome of
  \<open>handle_command_line\<close>: it is not caught and there is no third execution.
\<close>

theorem handle_command_line_restart_once:
  assumes "parse_known_args ext (commands s) args = Inr (parsed, unknown_args)"
    and "command parsed = Some name" and "name \<noteq> []" and "name \<in> set (commands s)"
    and "execute_command ext name
           ((configure_context_logger (selected_log_level parsed) s)
              \<lparr>config_args := Some parsed, config_unknown_args := unknown_args\<rparr>) =
         (Inl (RestartWithArgs restart_args), s3)"
  shows "handle_command_line ext args s =
           execute_command ext name (s3\<lparr>config_args := Some restart_args\<rparr>) \<and>
         (\<forall>again s4.
            execute_command ext name (s3\<lparr>config_args := Some restart_args\<rparr>) =
              (Inl (RestartWithArgs again), s4) \<longrightarrow>
            handle_command_line ext args s = (Inl (RestartWithArgs again), s4))"
proof -
  have "commands (configure_context_logger (selected_log_level parsed) s) = commands s"
    by (simp add: configure_context_logger_def)
  then have "handle_command_line ext args s =
           execute_command ext name (s3\<lparr>config_args := Some restart_args\<rparr>)"
    using assms by (simp add: handle_command_line_def commands_get_def Let_def)
  then show ?thesis by simp
qed

theorem handle_command_line_restart_once_witness:
  "execute_command demo_ext ''info''
     ((configure_context_logger (selected_log_level info_args) (demo_state\<lparr>commands := [''info'']\<rparr>))
        \<lparr>config_args := Some info_args, config_unknown_args := []\<rparr>) =
     (Inl (RestartWithArgs (info_args\<lparr>verbose := True\<rparr>)),
      demo_state\<lparr>commands := [''info''], config_args := Some info_args\<rparr>) \<and>
   handle_command_line demo_ext None (demo_state\<lparr>commands := [''info'']\<rparr>) =
     (Inr (),
      demo_state\<lparr>commands := [''info''], config_args := Some (info_args\<lparr>verbose := True\<rparr>),
                 exceptions := [Failure ''boom'']\<rparr>)"
proof -
  let ?s = "demo_state\<lparr>commands := [''info'']\<rparr>"
  let ?s3 = "demo_state\<lparr>commands := [''info''], config_args := Some info_args\<rparr>"
  let ?restart = "info_args\<lparr>verbose := True\<rparr>"
  have p: "parse_known_args demo_ext (commands ?s) None = Inr (info_args, [])"
    by (simp add: demo_ext_def)
  have c: "command info_args = Some ''info''" "''info'' \<noteq> []" "''info'' \<in> set (commands ?s)"
    by (simp_all add: info_args_def)
  have e: "execute_command demo_ext ''info''
             ((configure_context_logger (selected_log_level info_args) ?s)
                \<lparr>config_args := Some info_args, config_unknown_args := []\<rparr>) =
           (Inl (RestartWithArgs ?restart), ?s3)"
    by (simp add: demo_ext_def demo_execute_command_def configure_context_logger_def
        selected_log_level_def info_args_def demo_state_def)
  have r: "execute_command demo_ext ''info'' (?s3\<lparr>config_args := Some ?restart\<rparr>) =
           (Inr (), demo_state\<lparr>commands := [''info''], config_args := Some ?restart,
                               exceptions := [Failure ''boom'']\<rparr>)"
    by (simp add: demo_ext_def demo_execute_command_def info_args_def demo_state_def)
  show ?thesis
    using handle_command_line_restart_once[OF p c e] e r by simp
qed

text \<open>
  C5.  When \<open>main\<close> returns, it returns the process-wide exception list, and
  \<open>console_script\<close> raises \<open>SystemExit(1)\<close> if that list is non-empty and returns normally
  otherwise: the exit status is non-zero exactly when the list is non-empty.
\<close>

theorem console_script_exit_status:
  assumes "main ext None s = (Inr excs, s')"
  shows "console_script ext s = (if excs \<noteq> [] then Inl (SystemExit 1) else Inr (), s') \<and>
         (exit_status (fst (console_script ext s)) \<noteq> 0 \<longleftrightarrow> excs \<noteq> []) \<and>
         excs = exceptions s'"
proof -
  have c: "console_script ext s = (if excs \<noteq> [] then Inl (SystemExit 1) else Inr (), s')"
    using assms by (simp add: console_script_def and_then_def raise_def returns_def)
  have e: "excs = exceptions s'"
    using assms unfolding main_def and_then_Inr by auto
  show ?thesis using c e by simp
qed

theorem console_script_exit_status_witness:
  "main demo_ext None demo_state = (Inr [Failure ''boom''], snd (main demo_ext None demo_state)) \<and>
   console_script demo_ext demo_state = (Inl (SystemExit 1), snd (main demo_ext None demo_state)) \<and>
   exit_status (fst (console_script demo_ext demo_state)) = 1"
proof -
  have "fst (main demo_ext None demo_state) = Inr [Failure ''boom'']"
    by code_simp
  then have m: "main demo_ext None demo_state =
      (Inr [Failure ''boom''], snd (main demo_ext None demo_state))"
    by (metis prod.collapse)
  show ?thesis
    using console_script_exit_status[OF m] m by simp
qed

section \<open>The environment backup: encoding and decoding\<close>


lemma hex_value_hex_digit: "d < 16 \<Longrightarrow> hex_value (hex_digit d) = Some d"
  by (simp add: hex_value_def hex_digit_def)

lemma hex4_value:
  fixes n :: nat
  assumes "n < 65536"
  shows "((n div 4096 mod 16 * 16 + n div 256 mod 16) * 16 + n div 16 mod 16) * 16 + n mod 16 = n"
proof -
  have a: "n mod 256 = 16 * (n div 16 mod 16) + n mod 16"
    using mod_mult2_eq[of n 16 16] by simp
  have b: "n mod 4096 = 256 * (n div 256 mod 16) + n mod 256"
    using mod_mult2_eq[of n 256 16] by simp
  have c: "n mod 65536 = 4096 * (n div 4096 mod 16) + n mod 4096"
    using mod_mult2_eq[of n 4096 16] by simp
  have "n mod 65536 = n" using assms by simp
  then show ?thesis using a b c by simp
qed

lemma decode_hex4_hex4: "n < 65536 \<Longrightarrow> decode_hex4 (hex4 n @ rest) = Some (n, rest)"
  using hex4_value[of n]
  by (simp add: decode_hex4_def hex4_def hex_value_hex_digit)

lemma hex4_length: "length (hex4 n) = 4"
  by (simp add: hex4_def)

lemma escape_char_short:
  "c \<in> {34, 92, 10, 13, 9, 8, 12} \<Longrightarrow>
   \<exists>e. escape_char c = [92, e] \<and> e \<noteq> 117 \<and> backslash e = Some c"
  by (auto simp: escape_char_def backslash_def)

lemma escape_char_cases:
  obtains (short) e where "escape_char c = [92, e]" "e \<noteq> 117" "backslash e = Some c"
  | (plain) "escape_char c = [c]" "c \<noteq> 34" "c \<noteq> 92" "32 \<le> c" "c \<le> 126"
  | (bmp) "escape_char c = 92 # 117 # hex4 c" "c < 65536"
  | (astral) "escape_char c =
        92 # 117 # hex4 (55296 + (c - 65536) div 1024 mod 1024) @
        92 # 117 # hex4 (56320 + (c - 65536) mod 1024)" "65536 \<le> c"
proof (cases "c \<in> {34, 92, 10, 13, 9, 8, 12}")
  case True
  then show ?thesis using escape_char_short short by blast
next
  case False
  then have ne: "c \<noteq> 34" "c \<noteq> 92" "c \<noteq> 10" "c \<noteq> 13" "c \<noteq> 9" "c \<noteq> 8" "c \<noteq> 12"
    by simp_all
  show ?thesis
  proof (cases "32 \<le> c \<and> c \<le> 126")
    case True
    then have "escape_char c = [c]" using ne by (simp add: escape_char_def)
    then show ?thesis using True ne plain by blast
  next
    case np: False
    show ?thesis
    proof (cases "c < 65536")
      case True
      then have "escape_char c = 92 # 117 # hex4 c"
        using ne np by (simp add: escape_char_def u_escape_def)
      then show ?thesis using True bmp by blast
    next
      case False
      then have "escape_char c =
        92 # 117 # hex4 (55296 + (c - 65536) div 1024 mod 1024) @
        92 # 117 # hex4 (56320 + (c - 65536) mod 1024)"
        using ne np by (simp add: escape_char_def u_escape_def)
      then show ?thesis using False astral by simp
    qed
  qed
qed

lemma escaped_starts_with_u:
  assumes t: "t = concat (map escape_char s) @ 34 # rest"
    and "t ! 0 = 92" and "t ! 1 = 117"
  obtains c2 s2 x r where "s = c2 # s2" "t = 92 # 117 # hex4 x @ r" "x < 65536"
    "low_surrogate x \<longrightarrow> low_surrogate c2"
proof (cases s)
  case Nil
  then show ?thesis using assms by simp
next
  case (Cons c2 s2)
  show ?thesis
  proof (cases c2 rule: escape_char_cases)
    case (short e)
    then show ?thesis using assms Cons by simp
  next
    case plain
    then show ?thesis using assms Cons by simp
  next
    case bmp
    then have "t = 92 # 117 # hex4 c2 @ (concat (map escape_char s2) @ 34 # rest)"
      using t Cons by simp
    then show ?thesis using that[of c2 s2 c2] Cons bmp(2) by blast
  next
    case astral
    let ?x = "55296 + (c2 - 65536) div 1024 mod 1024"
    have "t = 92 # 117 # hex4 ?x @
        (92 # 117 # hex4 (56320 + (c2 - 65536) mod 1024) @ concat (map escape_char s2) @ 34 # rest)"
      using t Cons astral(1) by simp
    moreover have "(c2 - 65536) div 1024 mod 1024 < 1024" by simp
    then have "?x < 56320" by linarith
    then have "?x < 65536" "\<not> low_surrogate ?x" by (simp_all add: low_surrogate_def)
    ultimately show ?thesis using that[of c2 s2 ?x] Cons by blast
  qed
qed

lemma scan_u_single:
  assumes "4 < length cs" and "decode_hex4 cs = Some (uni, rest)"
    and "\<not> (55296 \<le> uni \<and> uni \<le> 56319 \<and> 6 < length rest \<and> rest ! 0 = 92 \<and> rest ! 1 = 117)"
  shows "scan_u cs = Inr (uni, rest)"
  using assms by (auto simp: scan_u_def)

lemma scan_u_not_joined:
  assumes "4 < length cs" and "decode_hex4 cs = Some (uni, rest)"
    and "decode_hex4 (drop 2 rest) = Some (uni2, rest2)"
    and "\<not> (56320 \<le> uni2 \<and> uni2 \<le> 57343)"
  shows "scan_u cs = Inr (uni, rest)"
  using assms by (auto simp: scan_u_def)

lemma scan_u_joined:
  assumes "4 < length cs" and "decode_hex4 cs = Some (uni, rest)"
    and "55296 \<le> uni" "uni \<le> 56319" "6 < length rest" "rest ! 0 = 92" "rest ! 1 = 117"
    and "decode_hex4 (drop 2 rest) = Some (uni2, rest2)"
    and "56320 \<le> uni2" "uni2 \<le> 57343"
  shows "scan_u cs = Inr (65536 + (uni - 55296) * 1024 + (uni2 - 56320), rest2)"
  using assms by (auto simp: scan_u_def)

lemma scan_u_bmp:
  assumes "c < 65536"
    and "\<not> (high_surrogate c \<and> s \<noteq> [] \<and> low_surrogate (hd s))"
  shows "scan_u (hex4 c @ concat (map escape_char s) @ 34 # rest) =
         Inr (c, concat (map escape_char s) @ 34 # rest)"
proof -
  define t where "t = concat (map escape_char s) @ 34 # rest"
  have len: "4 < length (hex4 c @ t)" by (simp add: hex4_length t_def)
  have d: "decode_hex4 (hex4 c @ t) = Some (c, t)"
    using decode_hex4_hex4[OF assms(1)] .
  show ?thesis
  proof (cases "55296 \<le> c \<and> c \<le> 56319 \<and> 6 < length t \<and> t ! 0 = 92 \<and> t ! 1 = 117")
    case False
    then have "scan_u (hex4 c @ t) = Inr (c, t)"
      using scan_u_single[OF len d] by blast
    then show ?thesis by (simp add: t_def)
  next
    case True
    then have hi: "high_surrogate c" by (simp add: high_surrogate_def)
    from True obtain c2 s2 x r where x: "s = c2 # s2" "t = 92 # 117 # hex4 x @ r" "x < 65536"
      "low_surrogate x \<longrightarrow> low_surrogate c2"
      using escaped_starts_with_u[OF t_def] by metis
    have "\<not> low_surrogate c2" using assms(2) hi x(1) by simp
    then have "\<not> low_surrogate x" using x(4) by blast
    then have nl: "\<not> (56320 \<le> x \<and> x \<le> 57343)" unfolding low_surrogate_def .
    have d2: "decode_hex4 (drop 2 t) = Some (x, r)"
      using decode_hex4_hex4[OF x(3)] x(2) by simp
    have "scan_u (hex4 c @ t) = Inr (c, t)"
      using scan_u_not_joined[OF len d d2 nl] .
    then show ?thesis by (simp add: t_def)
  qed
qed

lemma scan_u_astral:
  assumes "65536 \<le> c" and "c < 1114112" and "t \<noteq> []"
  shows "scan_u (hex4 (55296 + (c - 65536) div 1024 mod 1024) @
                 92 # 117 # hex4 (56320 + (c - 65536) mod 1024) @ t) = Inr (c, t)"
proof -
  define v where "v = c - 65536"
  define H where "H = 55296 + v div 1024 mod 1024"
  define L where "L = 56320 + v mod 1024"
  define t1 where "t1 = 92 # 117 # hex4 L @ t"
  have v: "v < 1048576" "c = 65536 + v" using assms by (simp_all add: v_def)
  then have "v div 1024 < 1024" by simp
  then have hd: "v div 1024 mod 1024 = v div 1024" by simp
  have H: "55296 \<le> H" "H \<le> 56319" "H < 65536"
    using \<open>v div 1024 < 1024\<close> by (simp_all add: H_def hd)
  have "v mod 1024 < 1024" by simp
  then have L: "56320 \<le> L" "L \<le> 57343" "L < 65536"
    by (simp_all add: L_def)
  have join: "65536 + (H - 55296) * 1024 + (L - 56320) = c"
    using v(2) by (simp add: H_def L_def hd)
  have len: "4 < length (hex4 H @ t1)" by (simp add: t1_def hex4_length)
  have d1: "decode_hex4 (hex4 H @ t1) = Some (H, t1)"
    using decode_hex4_hex4[OF H(3)] .
  have cond: "6 < length t1" "t1 ! 0 = 92" "t1 ! 1 = 117"
    using assms(3) by (simp_all add: t1_def hex4_length Suc_lessI)
  have d2: "decode_hex4 (drop 2 t1) = Some (L, t)"
    using decode_hex4_hex4[OF L(3)] by (simp add: t1_def)
  have "scan_u (hex4 H @ t1) = Inr (c, t)"
    using scan_u_joined[OF len d1 H(1,2) cond d2 L(1,2)] join by simp
  then show ?thesis by (simp add: H_def L_def t1_def v_def)
qed

lemma surrogate_pair_Cons:
  "\<not> surrogate_pair (c # s) \<Longrightarrow>
   \<not> surrogate_pair s \<and> \<not> (high_surrogate c \<and> s \<noteq> [] \<and> low_surrogate (hd s))"
  by (cases s) auto

lemma scanstring_escaped:
  assumes "code_points s" and "\<not> surrogate_pair s"
  shows "scanstring (concat (map escape_char s) @ 34 # rest) = Inr (s, rest)"
  using assms
proof (induction s)
  case Nil
  then show ?case by (simp add: scanstring.simps)
next
  case (Cons c s)
  define t where "t = concat (map escape_char s) @ 34 # rest"
  have c: "c < 1114112" and cs: "code_points s"
    using Cons.prems(1) by (simp_all add: code_points_def)
  have nsp: "\<not> surrogate_pair s"
    and nj: "\<not> (high_surrogate c \<and> s \<noteq> [] \<and> low_surrogate (hd s))"
    using surrogate_pair_Cons[OF Cons.prems(2)] by simp_all
  have IH: "scanstring t = Inr (s, rest)"
    using Cons.IH[OF cs nsp] by (simp add: t_def)
  have t: "t \<noteq> []" by (simp add: t_def)
  have "scanstring (escape_char c @ t) = Inr (c # s, rest)"
  proof (cases c rule: escape_char_cases)
    case (short e)
    then show ?thesis
      using IH by (simp add: scanstring.simps(2)[of 92])
  next
    case plain
    then show ?thesis
      using IH by (simp add: scanstring.simps(2)[of c])
  next
    case bmp
    have "scan_u (hex4 c @ t) = Inr (c, t)"
      using scan_u_bmp[OF bmp(2) nj] by (simp add: t_def)
    then show ?thesis
      using IH bmp(1) by (simp add: scanstring.simps(2)[of 92])
  next
    case astral
    have "scan_u (hex4 (55296 + (c - 65536) div 1024 mod 1024) @
                 92 # 117 # hex4 (56320 + (c - 65536) mod 1024) @ t) = Inr (c, t)"
      using scan_u_astral[OF astral(2) c t] .
    then show ?thesis
      using IH astral(1) by (simp add: scanstring.simps(2)[of 92])
  qed
  then show ?case by (simp add: t_def)
qed

lemma hex_digit_ascii: "d < 16 \<Longrightarrow> hex_digit d < 128"
  by (simp add: hex_digit_def)

lemma hex4_ascii: "x \<in> set (hex4 n) \<Longrightarrow> x < 128"
  by (auto simp: hex4_def intro!: hex_digit_ascii)

lemma escape_char_ascii: "x \<in> set (escape_char c) \<Longrightarrow> x < 128"
  by (cases c rule: escape_char_cases) (auto simp: backslash_def dest: hex4_ascii split: if_splits)

lemma encode_basestring_ascii_ascii: "x \<in> set (encode_basestring_ascii s) \<Longrightarrow> x < 128"
  by (auto simp: encode_basestring_ascii_def dest: escape_char_ascii)

lemma dumps_item_ascii: "x \<in> set (dumps_item item) \<Longrightarrow> x < 128"
  by (auto simp: dumps_item_def dest: encode_basestring_ascii_ascii)

lemma dumps_items_ascii: "x \<in> set (dumps_items d) \<Longrightarrow> x < 128"
  by (induction d rule: dumps_items.induct) (auto dest: dumps_item_ascii)

lemma json_dumps_ascii: "x \<in> set (json_dumps d) \<Longrightarrow> x < 128"
  by (auto simp: json_dumps_def dest: dumps_items_ascii)

lemma utf8_encode_ascii: "\<forall>c \<in> set s. c < 128 \<Longrightarrow> utf8_encode s = Inr s"
  by (induction s) (simp_all add: utf8_encode_char_def)

lemma utf8_decode_ascii: "\<forall>c \<in> set s. c < 128 \<Longrightarrow> utf8_decode s = Inr s"
  by (induction s) simp_all

lemma parse_members_last:
  assumes "scanstring after_quote = Inr (key, 58 # 32 # 34 # after_v)"
    and "scanstring after_v = Inr (val, 125 # after_d)"
  shows "parse_members pairs (34 # after_quote) = Inr (dict_set key val pairs, after_d)"
  by (subst parse_members.simps) (simp add: assms is_whitespace_def)

lemma parse_members_next:
  assumes "scanstring after_quote = Inr (key, 58 # 32 # 34 # after_v)"
    and "scanstring after_v = Inr (val, 44 # 32 # 34 # others)"
  shows "parse_members pairs (34 # after_quote) =
         parse_members (dict_set key val pairs) (34 # others)"
  by (subst parse_members.simps) (simp add: assms is_whitespace_def)

lemma dumps_item_text:
  "dumps_item (k, v) @ rest =
   34 # (concat (map escape_char k) @ 34 # 58 # 32 # 34 # (concat (map escape_char v) @ 34 # rest))"
  by (simp add: dumps_item_def encode_basestring_ascii_def)

lemma dumps_items_quote: "d \<noteq> [] \<Longrightarrow> \<exists>others. dumps_items d = 34 # others"
  by (induction d rule: dumps_items.induct)
    (auto simp: dumps_item_def encode_basestring_ascii_def)

lemma parse_members_dumps_items:
  assumes "d \<noteq> []"
    and "\<forall>s \<in> set (strings_of d). code_points s \<and> \<not> surrogate_pair s"
  shows "parse_members pairs (dumps_items d @ 125 # rest) =
         Inr (fold (\<lambda>(k, v). dict_set k v) d pairs, rest)"
  using assms
proof (induction d arbitrary: pairs rule: dumps_items.induct)
  case 1
  then show ?case by simp
next
  case (2 item)
  obtain k v where item: "item = (k, v)" by (cases item)
  have ok: "code_points k" "\<not> surrogate_pair k" "code_points v" "\<not> surrogate_pair v"
    using "2.prems"(2) by (simp_all add: strings_of_def item)
  show ?case
    using parse_members_last[OF scanstring_escaped[OF ok(1,2)] scanstring_escaped[OF ok(3,4)]]
    by (simp add: item dumps_item_text)
next
  case (3 item item2 items)
  obtain k v where item: "item = (k, v)" by (cases item)
  have ok: "code_points k" "\<not> surrogate_pair k" "code_points v" "\<not> surrogate_pair v"
    using "3.prems"(2) by (simp_all add: strings_of_def item)
  have rest_ok: "\<forall>s \<in> set (strings_of (item2 # items)). code_points s \<and> \<not> surrogate_pair s"
    using "3.prems"(2) by (auto simp: strings_of_def)
  obtain others where others: "dumps_items (item2 # items) = 34 # others"
    using dumps_items_quote[of "item2 # items"] by blast
  have shape: "dumps_items (item # item2 # items) @ 125 # rest =
      dumps_item (k, v) @ 44 # 32 # 34 # (others @ 125 # rest)"
    using others by (simp add: item)
  have "parse_members pairs (dumps_items (item # item2 # items) @ 125 # rest) =
        parse_members (dict_set k v pairs) (34 # (others @ 125 # rest))"
    unfolding shape dumps_item_text
    using parse_members_next[OF scanstring_escaped[OF ok(1,2)] scanstring_escaped[OF ok(3,4)]] .
  also have "\<dots> = parse_members (dict_set k v pairs) (dumps_items (item2 # items) @ 125 # rest)"
    using others by simp
  also have "\<dots> = Inr (fold (\<lambda>(k, v). dict_set k v) (item2 # items) (dict_set k v pairs), rest)"
    using "3.IH"[OF _ rest_ok] by simp
  finally show ?case by (simp add: item)
qed

lemma fold_dict_set_fresh:
  "distinct (map fst d) \<Longrightarrow> set (map fst d) \<inter> set (map fst pairs) = {} \<Longrightarrow>
   fold (\<lambda>(k, v). dict_set k v) d pairs = pairs @ d"
proof (induction d arbitrary: pairs)
  case Nil
  then show ?case by simp
next
  case (Cons p d)
  obtain k v where p: "p = (k, v)" by (cases p)
  have fresh: "k \<notin> set (map fst pairs)" using Cons.prems(2) p by auto
  then have one: "dict_set k v pairs = pairs @ [(k, v)]" by (rule dict_set_fresh)
  have "set (map fst d) \<inter> set (map fst (pairs @ [(k, v)])) = {}"
    using Cons.prems p by auto
  from Cons.IH[OF _ this] Cons.prems(1) show ?case
    by (simp add: p one)
qed

lemma json_loads_json_dumps:
  assumes "distinct (map fst d)"
    and "\<forall>s \<in> set (strings_of d). code_points s \<and> \<not> surrogate_pair s"
  shows "json_loads (json_dumps d) = Inr d"
proof (cases "d = []")
  case True
  then show ?thesis
    by (simp add: json_loads_def json_dumps_def is_whitespace_def)
next
  case False
  obtain others where others: "dumps_items d = 34 # others"
    using dumps_items_quote[OF False] by blast
  have "parse_members [] (dumps_items d @ 125 # []) = Inr (fold (\<lambda>(k, v). dict_set k v) d [], [])"
    using parse_members_dumps_items[OF False assms(2)] .
  moreover have "fold (\<lambda>(k, v). dict_set k v) d [] = d"
    using fold_dict_set_fresh[OF assms(1), of "[]"] by simp
  ultimately have "parse_members [] (34 # others @ [125]) = Inr (d, [])"
    using others by simp
  then show ?thesis
    by (simp add: json_loads_def json_dumps_def is_whitespace_def others)
qed

lemma b64_value_char: "n < 64 \<Longrightarrow> b64_value (b64_char n) = Some n"
  unfolding b64_value_def b64_char_def by (auto split: if_splits)

lemma b64_char_not_pad: "b64_char n \<noteq> 61"
  unfolding b64_char_def by (auto split: if_splits)

lemma b64_char_ascii: "b64_char n < 128"
  unfolding b64_char_def by (auto split: if_splits)

lemma a2b_loop_char:
  "n < 64 \<Longrightarrow>
   a2b_loop (b64_char n # rest) quad_pos leftchar pads out =
     (if quad_pos = 0 then a2b_loop rest 1 n 0 out
      else if quad_pos = 1
      then a2b_loop rest 2 (n mod 16) 0 (out @ [leftchar * 4 + n div 16])
      else if quad_pos = 2
      then a2b_loop rest 3 (n mod 4) 0 (out @ [leftchar * 16 + n div 4])
      else a2b_loop rest 0 0 0 (out @ [leftchar * 64 + n]))"
  by (simp add: b64_value_char b64_char_not_pad)

lemma sextets:
  fixes a b c :: nat
  assumes "a < 256" "b < 256" "c < 256"
  shows "a div 4 < 64" "a mod 4 * 16 + b div 16 < 64" "b mod 16 * 4 + c div 64 < 64"
    "c mod 64 < 64" "a mod 4 * 16 < 64" "b mod 16 * 4 < 64"
proof -
  have "a mod 4 < 4" "b mod 16 < 16" by simp_all
  moreover have "b div 16 < 16" "c div 64 < 4" using assms by simp_all
  ultimately show "a mod 4 * 16 + b div 16 < 64" "b mod 16 * 4 + c div 64 < 64"
    "a mod 4 * 16 < 64" "b mod 16 * 4 < 64"
    by linarith+
  show "a div 4 < 64" using assms by simp
  show "c mod 64 < 64" by simp
qed

lemma octets:
  fixes a b c :: nat
  assumes "b < 256" "c < 256"
  shows "a div 4 * 4 + (a mod 4 * 16 + b div 16) div 16 = a"
    "(a mod 4 * 16 + b div 16) mod 16 * 16 + (b mod 16 * 4 + c div 64) div 4 = b"
    "(b mod 16 * 4 + c div 64) mod 4 * 64 + c mod 64 = c"
    "a div 4 * 4 + (a mod 4 * 16) div 16 = a"
    "(a mod 4 * 16 + b div 16) mod 16 * 16 + (b mod 16 * 4) div 4 = b"
proof -
  have b: "b div 16 < 16" and c: "c div 64 < 4" using assms by simp_all
  have 1: "(a mod 4 * 16 + b div 16) div 16 = a mod 4" using b by simp
  have 2: "(a mod 4 * 16 + b div 16) mod 16 = b div 16" using b by simp
  have 3: "(b mod 16 * 4 + c div 64) div 4 = b mod 16" using c by simp
  have 4: "(b mod 16 * 4 + c div 64) mod 4 = c div 64" using c by simp
  have 5: "a mod 4 * 16 div 16 = a mod 4" "b mod 16 * 4 div 4 = b mod 16" by simp_all
  show "a div 4 * 4 + (a mod 4 * 16 + b div 16) div 16 = a"
    by (simp only: 1 div_mult_mod_eq)
  show "(a mod 4 * 16 + b div 16) mod 16 * 16 + (b mod 16 * 4 + c div 64) div 4 = b"
    by (simp only: 2 3 div_mult_mod_eq)
  show "(b mod 16 * 4 + c div 64) mod 4 * 64 + c mod 64 = c"
    by (simp only: 4 div_mult_mod_eq)
  show "a div 4 * 4 + (a mod 4 * 16) div 16 = a"
    by (simp only: 5 div_mult_mod_eq)
  show "(a mod 4 * 16 + b div 16) mod 16 * 16 + (b mod 16 * 4) div 4 = b"
    by (simp only: 2 5 div_mult_mod_eq)
qed

lemma a2b_loop_pad:
  "a2b_loop (61 # rest) quad_pos leftchar pads out =
     (if 2 \<le> quad_pos
      then (if 4 \<le> quad_pos + (pads + 1) then (0, out)
            else a2b_loop rest quad_pos leftchar (pads + 1) out)
      else a2b_loop rest quad_pos leftchar pads out)"
  by simp

lemma a2b_loop_quad:
  assumes "v1 < 64" "v2 < 64" "v3 < 64" "v4 < 64"
  shows "a2b_loop (b64_char v1 # b64_char v2 # b64_char v3 # b64_char v4 # rest) 0 0 0 out =
         a2b_loop rest 0 0 0
           (out @ [v1 * 4 + v2 div 16, v2 mod 16 * 16 + v3 div 4, v3 mod 4 * 64 + v4])"
  using assms by (simp add: a2b_loop_char del: a2b_loop.simps(2))

lemma a2b_loop_triple:
  assumes "v1 < 64" "v2 < 64" "v3 < 64"
  shows "a2b_loop [b64_char v1, b64_char v2, b64_char v3, 61] 0 0 0 out =
         (0, out @ [v1 * 4 + v2 div 16, v2 mod 16 * 16 + v3 div 4])"
  using assms by (simp add: a2b_loop_char a2b_loop_pad del: a2b_loop.simps(2))

lemma a2b_loop_double:
  assumes "v1 < 64" "v2 < 64"
  shows "a2b_loop [b64_char v1, b64_char v2, 61, 61] 0 0 0 out =
         (0, out @ [v1 * 4 + v2 div 16])"
  using assms by (simp add: a2b_loop_char a2b_loop_pad del: a2b_loop.simps(2))

lemma a2b_loop_b64encode:
  "\<forall>b \<in> set bs. b < 256 \<Longrightarrow> a2b_loop (b64encode bs) 0 0 0 out = (0, out @ bs)"
proof (induction bs arbitrary: out rule: b64encode.induct)
  case (1 a b c rest)
  have lt: "a < 256" "b < 256" "c < 256" and r: "\<forall>b \<in> set rest. b < 256"
    using "1.prems" by simp_all
  have "a2b_loop (b64encode (a # b # c # rest)) 0 0 0 out =
        a2b_loop (b64encode rest) 0 0 0 (out @ [a, b, c])"
    using a2b_loop_quad[OF sextets(1-4)[OF lt], of "b64encode rest" out]
    by (simp only: octets(1-3)[OF lt(2,3)] b64encode.simps append_Cons append_Nil)
  then show ?case using "1.IH"[OF r] by simp
next
  case (2 a b)
  have lt: "a < 256" "b < 256" "(0::nat) < 256" using "2.prems" by simp_all
  show ?case
    using a2b_loop_triple[OF sextets(1,2,6)[OF lt], of out]
    by (simp only: octets(1,5)[OF lt(2,3)] b64encode.simps)
next
  case (3 a)
  have lt: "a < 256" "(0::nat) < 256" "(0::nat) < 256" using "3.prems" by simp_all
  show ?case
    using a2b_loop_double[OF sextets(1,5)[OF lt], of out]
    by (simp only: octets(4)[OF lt(2,3)] b64encode.simps)
next
  case 4
  then show ?case by simp
qed

lemma a2b_base64_b64encode: "\<forall>b \<in> set bs. b < 256 \<Longrightarrow> a2b_base64 (b64encode bs) = Inr bs"
  using a2b_loop_b64encode[of bs "[]"] by (simp add: a2b_base64_def)

lemma b64encode_ascii: "x \<in> set (b64encode bs) \<Longrightarrow> x < 128"
  by (induction bs rule: b64encode.induct) (auto simp: b64_char_ascii)

lemma b64decode_b64encode:
  assumes "\<forall>b \<in> set bs. b < 256"
  shows "b64decode (b64encode bs) = Inr bs"
proof -
  have "\<not> (\<exists>c \<in> set (b64encode bs). 128 \<le> c)"
    using b64encode_ascii[of _ bs] by (meson not_le)
  then show ?thesis
    using a2b_base64_b64encode[OF assms] by (simp add: b64decode_def)
qed

lemma round_trip_json:
  "round_trip d = json_loads (json_dumps d)"
proof -
  have a: "\<forall>c \<in> set (json_dumps d). c < 128"
    using json_dumps_ascii by blast
  then have b: "\<forall>c \<in> set (json_dumps d). c < 256" by fastforce
  have e: "encode_environ_backup d = Inr (b64encode (json_dumps d))"
    using utf8_encode_ascii[OF a] utf8_decode_ascii[of "b64encode (json_dumps d)"]
      b64encode_ascii[of _ "json_dumps d"]
    by (simp add: encode_environ_backup_def)
  have "decode_environ_backup (b64encode (json_dumps d)) = json_loads (json_dumps d)"
    using b64decode_b64encode[OF b] utf8_decode_ascii[OF a]
    by (simp add: decode_environ_backup_def)
  then show ?thesis using e by (simp add: round_trip_def)
qed

lemma encode_environ_backup_text:
  "encode_environ_backup d = Inr (b64encode (json_dumps d))"
proof -
  have a: "\<forall>c \<in> set (json_dumps d). c < 128"
    using json_dumps_ascii by blast
  show ?thesis
    using utf8_encode_ascii[OF a] utf8_decode_ascii[of "b64encode (json_dumps d)"]
      b64encode_ascii[of _ "json_dumps d"]
    by (simp add: encode_environ_backup_def)
qed

lemma decode_environ_backup_text:
  "decode_environ_backup (b64encode (json_dumps d)) = json_loads (json_dumps d)"
proof -
  have a: "\<forall>c \<in> set (json_dumps d). c < 128"
    using json_dumps_ascii by blast
  then have b: "\<forall>c \<in> set (json_dumps d). c < 256" by fastforce
  show ?thesis
    using b64decode_b64encode[OF b] utf8_decode_ascii[OF a]
    by (simp add: decode_environ_backup_def)
qed

subsection \<open>The two backups, step by step\<close>

lemma surrogate_backup_dumps: "json_dumps surrogate_backup = surrogate_text"
  by (simp add: surrogate_backup_def surrogate_text_def json_dumps_def dumps_item_def
      encode_basestring_ascii_def escape_char_def u_escape_def hex4_def hex_digit_def)

lemma joined_backup_dumps: "json_dumps joined_backup = surrogate_text"
  by (simp add: joined_backup_def surrogate_text_def json_dumps_def dumps_item_def
      encode_basestring_ascii_def escape_char_def u_escape_def hex4_def hex_digit_def)

lemma surrogate_text_b64encode: "b64encode surrogate_text = surrogate_encoded"
  by (simp add: surrogate_text_def surrogate_encoded_def b64_char_def)

lemma surrogate_text_a2b_base64: "a2b_base64 surrogate_encoded = Inr surrogate_text"
  by (simp add: surrogate_text_def surrogate_encoded_def a2b_base64_def b64_value_def)

lemma surrogate_value_scanstring:
  "scanstring [92, 117, 100, 56, 51, 100, 92, 117, 100, 101, 48, 48, 34, 125] =
     Inr ([128512], [125])"
  by (simp add: scanstring.simps scan_u_def decode_hex4_def hex_value_def)

lemma surrogate_name_scanstring:
  "scanstring (drop 2 surrogate_text) =
     Inr ([107], [58, 32, 34, 92, 117, 100, 56, 51, 100, 92, 117, 100, 101, 48, 48, 34, 125])"
  by (simp add: surrogate_text_def scanstring.simps)

lemma surrogate_text_loads: "json_loads surrogate_text = Inr joined_backup"
proof -
  have "parse_members [] (34 # drop 2 surrogate_text) = Inr (dict_set [107] [128512] [], [])"
    using parse_members_last[OF surrogate_name_scanstring surrogate_value_scanstring] .
  then show ?thesis
    by (simp add: surrogate_text_def json_loads_def is_whitespace_def joined_backup_def)
qed

lemma surrogate_text_ascii: "\<forall>c \<in> set surrogate_text. c < 128"
  using json_dumps_ascii[of _ surrogate_backup] by (simp only: surrogate_backup_dumps) blast

lemma surrogate_encoded_ascii: "\<forall>c \<in> set surrogate_encoded. c < 128"
  using b64encode_ascii[of _ surrogate_text] by (simp only: surrogate_text_b64encode) blast

lemma surrogate_backup_decode: "decode_environ_backup surrogate_encoded = Inr joined_backup"
proof -
  have "\<not> (\<exists>c \<in> set surrogate_encoded. 128 \<le> c)"
    using surrogate_encoded_ascii by (meson not_le)
  then have "b64decode surrogate_encoded = Inr surrogate_text"
    by (simp add: b64decode_def surrogate_text_a2b_base64)
  then show ?thesis
    using utf8_decode_ascii[OF surrogate_text_ascii]
    by (simp add: decode_environ_backup_def surrogate_text_loads)
qed

lemma surrogate_backup_encode: "encode_environ_backup surrogate_backup = Inr surrogate_encoded"
  by (simp only: encode_environ_backup_text surrogate_backup_dumps surrogate_text_b64encode)

lemma surrogate_backup_is_a_dict:
  "distinct (map fst surrogate_backup) \<and> list_all code_points (strings_of surrogate_backup)"
  by (simp add: surrogate_backup_def strings_of_def code_points_def)

lemma demo_backup_distinct: "distinct (map fst demo_backup)"
  by (simp add: demo_backup_def)

lemma demo_backup_code_points: "list_all code_points (strings_of demo_backup)"
  by (simp add: demo_backup_def strings_of_def code_points_def)

lemma demo_backup_no_pair: "\<not> list_ex surrogate_pair (strings_of demo_backup)"
  by (simp add: demo_backup_def strings_of_def high_surrogate_def low_surrogate_def)

lemma demo_backup_dumps:
  "json_dumps demo_backup =
     [123, 34, 72, 79, 77, 69, 34, 58, 32, 34, 47, 114, 111, 111, 116, 34, 44, 32,
      34, 107, 34, 58, 32, 34, 92, 117, 48, 48, 101, 57, 92, 110, 92, 34,
      92, 117, 100, 56, 51, 100, 92, 117, 100, 101, 48, 48,
      92, 117, 100, 101, 48, 48, 92, 117, 100, 56, 51, 100, 34, 125]"
  by (simp add: demo_backup_def json_dumps_def dumps_item_def encode_basestring_ascii_def
      escape_char_def u_escape_def hex4_def hex_digit_def)

section \<open>The environment backup: the claim\<close>

text \<open>
  A backup whose value is the high surrogate \<open>U+D83D\<close> followed by the low surrogate
  \<open>U+DE00\<close>, two code points: \<open>json.dumps\<close> writes the two escapes that it also writes for
  the single code point \<open>U+1F600\<close>, and \<open>json.loads\<close> reads them as that code point.  The
  dict that comes back has a value of one code point and differs from the dict that was
  encoded.
\<close>

theorem surrogate_pair_does_not_round_trip:
  "distinct (map fst surrogate_backup) \<and>
   list_all code_points (strings_of surrogate_backup) \<and>
   json_dumps surrogate_backup = surrogate_text \<and>
   json_dumps joined_backup = surrogate_text \<and>
   encode_environ_backup surrogate_backup = Inr surrogate_encoded \<and>
   decode_environ_backup surrogate_encoded = Inr joined_backup \<and>
   round_trip surrogate_backup = Inr [([107], [128512])] \<and>
   round_trip surrogate_backup \<noteq> Inr surrogate_backup"
proof -
  have rt: "round_trip surrogate_backup = Inr joined_backup"
    by (simp only: round_trip_def surrogate_backup_encode surrogate_backup_decode sum.case)
  have "joined_backup \<noteq> surrogate_backup"
    by (simp add: joined_backup_def surrogate_backup_def)
  then have ne: "round_trip surrogate_backup \<noteq> Inr surrogate_backup"
    by (simp add: rt)
  have "round_trip surrogate_backup = Inr [([107], [128512])]"
    using rt by (simp only: joined_backup_def)
  then show ?thesis
    using surrogate_backup_is_a_dict surrogate_backup_dumps joined_backup_dumps
      surrogate_backup_encode surrogate_backup_decode ne
    by blast
qed

text \<open>
  C10.  For every dict from strings to strings in which no key and no value contains a high
  surrogate immediately followed by a low surrogate, decoding the encoded backup returns the
  dict: \<open>encode_environ_backup\<close> returns the Base64 text of the JSON document, and
  \<open>decode_environ_backup\<close> of that text returns the dict it was made from.  The keys of a
  dict are distinct and the code points of a string are below \<open>0x110000\<close>.
\<close>

theorem environ_backup_round_trip:
  assumes "distinct (map fst d)"
    and "list_all code_points (strings_of d)"
    and "\<not> list_ex surrogate_pair (strings_of d)"
  shows "encode_environ_backup d = Inr (b64encode (json_dumps d)) \<and>
         decode_environ_backup (b64encode (json_dumps d)) = Inr d \<and>
         round_trip d = Inr d"
proof -
  have ok: "\<forall>s \<in> set (strings_of d). code_points s \<and> \<not> surrogate_pair s"
    using assms(2,3) by (simp add: list_all_iff list_ex_iff)
  have dd: "decode_environ_backup (b64encode (json_dumps d)) = Inr d"
    using json_loads_json_dumps[OF assms(1) ok] by (simp add: decode_environ_backup_text)
  show ?thesis using encode_environ_backup_text dd by (simp add: round_trip_def)
qed

theorem environ_backup_round_trip_witness:
  "distinct (map fst demo_backup) \<and>
   list_all code_points (strings_of demo_backup) \<and>
   \<not> list_ex surrogate_pair (strings_of demo_backup) \<and>
   json_dumps demo_backup =
     [123, 34, 72, 79, 77, 69, 34, 58, 32, 34, 47, 114, 111, 111, 116, 34, 44, 32,
      34, 107, 34, 58, 32, 34, 92, 117, 48, 48, 101, 57, 92, 110, 92, 34,
      92, 117, 100, 56, 51, 100, 92, 117, 100, 101, 48, 48,
      92, 117, 100, 101, 48, 48, 92, 117, 100, 56, 51, 100, 34, 125] \<and>
   round_trip demo_backup = Inr demo_backup"
proof -
  from environ_backup_round_trip[OF demo_backup_distinct demo_backup_code_points
      demo_backup_no_pair]
  have "round_trip demo_backup = Inr demo_backup" by blast
  then show ?thesis
    using demo_backup_distinct demo_backup_code_points demo_backup_no_pair demo_backup_dumps
    by blast
qed


end
